theory Spec2Isabelle
  imports Main "HOL-Library.Word"
begin

section \<open>JavaScript strings\<close>

text \<open>
  A JavaScript string is a sequence of UTF-16 code units, and every string operation of
  the sources (\<open>length\<close>, \<open>substring\<close>, \<open>indexOf\<close>, regular expressions without
  the \<open>u\<close> flag) counts code units. A string is therefore a list of 16-bit words.
  \<open>jstr\<close> writes an ASCII literal as such a string.
\<close>

type_synonym jschar = "16 word"
type_synonym jsstring = "jschar list"

definition jstr :: "string \<Rightarrow> jsstring" where
  "jstr s = map of_char s"

abbreviation TAB :: jschar where "TAB \<equiv> 0x09"
abbreviation LF :: jschar where "LF \<equiv> 0x0A"
abbreviation CR :: jschar where "CR \<equiv> 0x0D"
abbreviation SPACE :: jschar where "SPACE \<equiv> 0x20"
abbreviation DQUOTE :: jschar where "DQUOTE \<equiv> 0x22"
abbreviation SEMI :: jschar where "SEMI \<equiv> 0x3B"
abbreviation EQUALS :: jschar where "EQUALS \<equiv> 0x3D"
abbreviation BSLASH :: jschar where "BSLASH \<equiv> 0x5C"
abbreviation LBRACE :: jschar where "LBRACE \<equiv> 0x7B"
abbreviation RBRACE :: jschar where "RBRACE \<equiv> 0x7D"

text \<open>Exceptions: \<open>new Error(message)\<close>, and the built-in \<open>RangeError\<close> and
  \<open>TypeError\<close> raised by the runtime itself.\<close>

datatype js_exn = Error jsstring | RangeError | TypeError

definition startsWith :: "jsstring \<Rightarrow> jsstring \<Rightarrow> bool" where
  "startsWith s p = (take (length p) s = p)"

definition endsWith :: "jsstring \<Rightarrow> jsstring \<Rightarrow> bool" where
  "endsWith s p = (length p \<le> length s \<and> drop (length s - length p) s = p)"

definition substring :: "jsstring \<Rightarrow> nat \<Rightarrow> nat \<Rightarrow> jsstring" where
  \<comment> \<open>\<open>s.substring(a, b)\<close>: both indices are clamped to the length and swapped if \<open>a > b\<close>.\<close>
  "substring s a b =
     (let a' = min a (length s); b' = min b (length s)
      in take (max a' b' - min a' b') (drop (min a' b') s))"

fun indexOf :: "jsstring \<Rightarrow> jschar \<Rightarrow> nat option" where
  \<comment> \<open>\<open>s.indexOf(c)\<close> for a one-unit search string; \<open>None\<close> is \<open>-1\<close>.\<close>
  "indexOf [] c = None"
| "indexOf (x # xs) c = (if x = c then Some 0 else map_option Suc (indexOf xs c))"

definition is_line_terminator :: "jschar \<Rightarrow> bool" where
  \<comment> \<open>ECMAScript LineTerminator: the characters the regular expression atom \<open>.\<close> refuses.\<close>
  "is_line_terminator c = (c = LF \<or> c = CR \<or> c = 0x2028 \<or> c = 0x2029)"

definition is_js_space :: "jschar \<Rightarrow> bool" where
  \<comment> \<open>ECMAScript WhiteSpace and LineTerminator: what \<open>trimEnd\<close> and \<open>parseInt\<close> strip.\<close>
  "is_js_space c =
     (c = TAB \<or> c = LF \<or> c = 0x0B \<or> c = 0x0C \<or> c = CR \<or> c = SPACE \<or> c = 0xA0
      \<or> c = 0x1680 \<or> (0x2000 \<le> c \<and> c \<le> 0x200A) \<or> c = 0x2028 \<or> c = 0x2029
      \<or> c = 0x202F \<or> c = 0x205F \<or> c = 0x3000 \<or> c = 0xFEFF)"

definition trimEnd :: "jsstring \<Rightarrow> jsstring" where
  "trimEnd s = rev (dropWhile is_js_space (rev s))"

definition is_blank :: "jschar \<Rightarrow> bool" where
  \<comment> \<open>the character class \<open>[ \t]\<close>\<close>
  "is_blank c = (c = SPACE \<or> c = TAB)"

definition hex_digit :: "jschar \<Rightarrow> int option" where
  "hex_digit c =
     (if 0x30 \<le> c \<and> c \<le> 0x39 then Some (uint c - 0x30)
      else if 0x41 \<le> c \<and> c \<le> 0x46 then Some (uint c - 0x41 + 10)
      else if 0x61 \<le> c \<and> c \<le> 0x66 then Some (uint c - 0x61 + 10)
      else None)"

definition is_hex :: "jschar \<Rightarrow> bool" where
  "is_hex c = (hex_digit c \<noteq> None)"

fun hex_value :: "int \<Rightarrow> jsstring \<Rightarrow> int" where
  \<comment> \<open>the value of a string of hexadecimal digits, most significant first\<close>
  "hex_value acc [] = acc"
| "hex_value acc (c # cs) = hex_value (16 * acc + the (hex_digit c)) cs"

definition parseInt16 :: "jsstring \<Rightarrow> int option" where
  \<comment> \<open>\<open>parseInt(s, 16)\<close>; \<open>None\<close> is \<open>NaN\<close>. Leading white space is skipped, a sign and
      a \<open>0x\<close> prefix are accepted, and the longest run of hexadecimal digits is read; what
      follows it is ignored. The sources use the value only when \<open>s\<close> has at most 8
      code units, where the Number is exact.\<close>
  "parseInt16 s =
     (let s1 = dropWhile is_js_space s;
          neg = (s1 \<noteq> [] \<and> hd s1 = 0x2D);
          s2 = (if s1 \<noteq> [] \<and> (hd s1 = 0x2B \<or> hd s1 = 0x2D) then tl s1 else s1);
          s3 = (if 2 \<le> length s2 \<and> s2 ! 0 = 0x30 \<and> (s2 ! 1 = 0x78 \<or> s2 ! 1 = 0x58)
                then drop 2 s2 else s2);
          z = takeWhile is_hex s3
      in if z = [] then None
         else Some ((if neg then - 1 else 1) * hex_value 0 z))"

definition fromCodePoint :: "int \<Rightarrow> js_exn + jsstring" where
  \<comment> \<open>\<open>String.fromCodePoint(cp)\<close>: a \<open>RangeError\<close> outside \<open>0..0x10FFFF\<close>, else the
      UTF-16 encoding (a surrogate pair above the basic plane).\<close>
  "fromCodePoint cp =
     (if cp < 0 \<or> 0x10FFFF < cp then Inl RangeError
      else if cp < 0x10000 then Inr [word_of_int cp]
      else Inr [0xD800 + word_of_int ((cp - 0x10000) div 0x400),
                0xDC00 + word_of_int ((cp - 0x10000) mod 0x400)])"

section \<open>utils.ts\<close>

fun lines_from :: "nat \<Rightarrow> jsstring \<Rightarrow> jsstring \<Rightarrow> (nat \<times> jsstring) list" where
  \<comment> \<open>the \<open>exec\<close> loop over \<open>/\r\n|\r|\n/g\<close>: \<open>cur\<close> is the text since \<open>lastIndex\<close>.
      After the last match the remainder is a line only if it is not empty.\<close>
  "lines_from lno cur [] = (if cur \<noteq> [] then [(lno, cur)] else [])"
| "lines_from lno cur (c # cs) =
     (if c = CR then
        (case cs of
           [] \<Rightarrow> [(lno, cur)]
         | d # ds \<Rightarrow> (lno, cur) # (if d = LF then lines_from (Suc lno) [] ds
                                   else lines_from (Suc lno) [] (d # ds)))
      else if c = LF then (lno, cur) # lines_from (Suc lno) [] cs
      else lines_from lno (cur @ [c]) cs)"

definition lines :: "jsstring \<Rightarrow> (nat \<times> jsstring) list" where
  "lines input = (if input = [] then [(1, [])] else lines_from 1 [] input)"

definition trimLeft :: "jsstring \<Rightarrow> jsstring \<times> jsstring" where
  \<comment> \<open>\<open>str.match(/^([ \t]*)(.*)/)\<close> always matches; the second group stops at the first
      line terminator, since \<open>.\<close> does not match one.\<close>
  "trimLeft str =
     (takeWhile is_blank str,
      takeWhile (\<lambda>c. \<not> is_line_terminator c) (dropWhile is_blank str))"

definition cutPrefix :: "jsstring \<Rightarrow> jsstring \<Rightarrow> jsstring \<times> bool" where
  "cutPrefix str p = (if startsWith str p then (drop (length p) str, True) else (str, False))"

definition trimRight :: "jsstring \<Rightarrow> jsstring \<Rightarrow> jsstring" where
  "trimRight str chars = rev (dropWhile (\<lambda>c. c \<in> set chars) (rev str))"

definition splitUnquoted :: "jsstring \<Rightarrow> bool \<Rightarrow> jsstring \<times> jsstring" where
  "splitUnquoted input key =
     (let semi = (case indexOf input SEMI of
                    Some i \<Rightarrow> (trimEnd (take i input), drop i input)
                  | None \<Rightarrow> (trimEnd input, []))
      in if key then
           (case indexOf input EQUALS of
              Some e \<Rightarrow>
                (let bef = take e input
                 in case indexOf bef SEMI of
                      Some i \<Rightarrow> (trimEnd (take i bef), drop i input)
                    | None \<Rightarrow> (trimEnd bef, drop e input))
            | None \<Rightarrow> semi)
         else semi)"

fun closing_quote :: "bool \<Rightarrow> nat \<Rightarrow> jsstring \<Rightarrow> nat option" where
  \<comment> \<open>the \<open>for\<close> loop of \<open>splitLiteral\<close> from index \<open>i\<close> on: the index of the first
      double quote that does not follow an odd run of backslashes.\<close>
  "closing_quote wasEscape i [] = None"
| "closing_quote wasEscape i (c # cs) =
     (if c = DQUOTE \<and> \<not> wasEscape then Some i
      else closing_quote (c = BSLASH \<and> \<not> wasEscape) (Suc i) cs)"

definition splitLiteral :: "jsstring \<Rightarrow> bool \<Rightarrow> jsstring \<times> jsstring" where
  "splitLiteral input key =
     (if startsWith input [DQUOTE] then
        (case closing_quote False 1 (drop 1 input) of
           Some i \<Rightarrow>
             (let (bef, after) = splitUnquoted (drop (i + 1) input) key
              in if bef \<noteq> [] then (substring input 0 (i + 1) @ bef, after)
                 else (substring input 0 (i + 1), after))
         | None \<Rightarrow> (input, []))
      else splitUnquoted input key)"

fun literal_body :: "jsstring \<Rightarrow> jsstring option" where
  \<comment> \<open>what follows the opening quote against \<open>((?:\\.|[^\\"])*)"$\<close>: the two alternatives
      exclude each other on their first code unit, so the scan is deterministic. The
      result is the first group.\<close>
  "literal_body [] = None"
| "literal_body (c # cs) =
     (if c = BSLASH then
        (case cs of
           [] \<Rightarrow> None
         | d # ds \<Rightarrow> if is_line_terminator d then None
                     else map_option (\<lambda>b. c # d # b) (literal_body ds))
      else if c = DQUOTE then (if cs = [] then Some [] else None)
      else map_option ((#) c) (literal_body cs))"

function decode_loop :: "jsstring \<Rightarrow> jsstring \<Rightarrow> jsstring \<Rightarrow> js_exn + (jsstring \<times> jsstring)" where
  \<comment> \<open>the \<open>while (i < content.length)\<close> loop of \<open>decodeLiteral\<close>; the first argument is
      \<open>content\<close> from index \<open>i\<close> on, then \<open>result\<close> and \<open>badEscape\<close>.\<close>
  "decode_loop [] result badEscape = Inr (result, badEscape)"
| "decode_loop [c] result badEscape = Inr (result @ [c], badEscape)"
| "decode_loop (c # n # cs) result badEscape =
     (if c \<noteq> BSLASH then decode_loop (n # cs) (result @ [c]) badEscape
      else if n = 0x6E then decode_loop cs (result @ [LF]) badEscape
      else if n = 0x72 then decode_loop cs (result @ [CR]) badEscape
      else if n = 0x74 then decode_loop cs (result @ [TAB]) badEscape
      else if n = DQUOTE then decode_loop cs (result @ [DQUOTE]) badEscape
      else if n = BSLASH then decode_loop cs (result @ [BSLASH]) badEscape
      else if n = LBRACE then
        (case indexOf cs RBRACE of
           None \<Rightarrow>
             decode_loop cs (result @ [c, n])
               (if badEscape = [] then take 12 (c # n # cs) else badEscape)
         | Some j \<Rightarrow>
             if j = 0 \<or> 8 < j then
               decode_loop cs (result @ [c, n])
                 (if badEscape = [] then take 12 (c # n # cs) else badEscape)
             else
               (case parseInt16 (take j cs) of
                  None \<Rightarrow>
                    decode_loop (drop (Suc j) cs) (result @ take (j + 3) (c # n # cs))
                      (if badEscape = [] then take (j + 3) (c # n # cs) else badEscape)
                | Some codePoint \<Rightarrow>
                    if 0x10FFFF < codePoint \<or> (0xD800 \<le> codePoint \<and> codePoint \<le> 0xDFFF) then
                      decode_loop (drop (Suc j) cs) (result @ take (j + 3) (c # n # cs))
                        (if badEscape = [] then take (j + 3) (c # n # cs) else badEscape)
                    else
                      (case fromCodePoint codePoint of
                         Inl e \<Rightarrow> Inl e
                       | Inr u \<Rightarrow> decode_loop (drop (Suc j) cs) (result @ u) badEscape)))
      else decode_loop cs (result @ [c, n]) (if badEscape = [] then [BSLASH, n] else badEscape))"
  by pat_completeness auto
termination
  by (relation "measure (\<lambda>(content, result, badEscape). length content)") auto

definition decodeLiteral :: "jsstring \<Rightarrow> js_exn + (jsstring \<times> jsstring option)" where
  \<comment> \<open>returns \<open>[text, error message or null]\<close>, or raises what \<open>String.fromCodePoint\<close> raises\<close>
  "decodeLiteral input =
     (if \<not> startsWith input [DQUOTE] then Inr (input, None)
      else
        (case literal_body (drop 1 input) of
           None \<Rightarrow>
             if \<not> endsWith input [DQUOTE] then Inr ([], Some (jstr ''unclosed quotes''))
             else Inr ([], Some (jstr ''characters after quotes''))
         | Some content \<Rightarrow>
             (case decode_loop content [] [] of
                Inl e \<Rightarrow> Inl e
              | Inr (result, badEscape) \<Rightarrow>
                  if badEscape \<noteq> [] then
                    Inr ([], Some (jstr ''invalid escape code: '' @ badEscape))
                  else Inr (result, None))))"

section \<open>types.ts: tokens\<close>

datatype TokenKind =
  Comment | Indent | Outdent | MapKey | ListItem | Scalar | NoValue
  | MultilineScalar | MultilineHint

record Token =
  lno :: nat
  kind :: TokenKind
  content :: jsstring
  error :: "jsstring option"  \<comment> \<open>the message of \<open>Token.error\<close>, if there is one\<close>

definition mk :: "nat \<Rightarrow> TokenKind \<Rightarrow> jsstring \<Rightarrow> jsstring option \<Rightarrow> Token" where
  "mk l k c e = \<lparr>lno = l, kind = k, content = c, error = e\<rparr>"

datatype ParseState = ParseState (state_kind: TokenKind) (hasKey: bool)

section \<open>The tolerant tokenizer: tokenize\<close>

text \<open>
  The generator \<open>tokenize\<close> keeps five variables across lines. A generator that raises
  has yielded tokens before: every function below returns the tokens yielded, the
  exception raised (if any) and the new state. The array \<open>stack\<close> is a list whose head is
  the array's last element.
\<close>

record tstate =
  stack :: "jsstring list"
  multiline :: bool
  multilinePrefix :: jsstring
  multilineValue :: jsstring
  multilineLno :: nat

definition init_tstate :: tstate where
  "init_tstate =
     \<lparr>stack = [[]], multiline = False, multilinePrefix = [], multilineValue = [],
      multilineLno = 0\<rparr>"

fun pop_outdents :: "jsstring \<Rightarrow> jsstring list \<Rightarrow> nat \<times> jsstring list" where
  \<comment> \<open>\<open>while (!indent.startsWith(stack[stack.length - 1])) stack.pop()\<close>: the number of
      frames popped and the stack left. The bottom frame is the empty string, which every
      string starts with, so the loop never reaches an empty array.\<close>
  "pop_outdents indent [] = (0, [])"
| "pop_outdents indent (t # ts) =
     (if startsWith indent t then (0, t # ts)
      else (let (n, st) = pop_outdents indent ts in (Suc n, st)))"

definition multiline_block ::
  "tstate \<Rightarrow> nat \<Rightarrow> jsstring \<Rightarrow> jsstring \<Rightarrow> jsstring \<Rightarrow> Token list \<times> tstate \<times> bool" where
  \<comment> \<open>the block \<open>if (multiline) { ... }\<close>; the flag says that the line ended in \<open>continue\<close>\<close>
  "multiline_block s l line indent rest =
     (if \<not> multiline s then ([], s, False)
      else if multilinePrefix s = [] then
        (if startsWith indent (hd (stack s)) \<and> indent \<noteq> hd (stack s) then
           ([], s\<lparr>multilinePrefix := indent, multilineValue := rest, multilineLno := l\<rparr>, True)
         else if rest = [] then ([], s, True)
         else
           ([mk (multilineLno s) MultilineScalar [] (Some (jstr ''missing multiline value''))],
            s\<lparr>multiline := False\<rparr>, False))
      else
        (if startsWith line (multilinePrefix s) then
           ([], s\<lparr>multilineValue :=
                    multilineValue s @ [LF] @ drop (length (multilinePrefix s)) line\<rparr>, True)
         else if rest = [] then
           ([], s\<lparr>multilineValue := multilineValue s @ [LF]\<rparr>, True)
         else
           ([mk (multilineLno s) MultilineScalar
               (trimRight (multilineValue s) [SPACE, TAB, CR, LF]) None],
            s\<lparr>multiline := False, multilinePrefix := [], multilineValue := []\<rparr>, False)))"

definition trailing_comment :: "nat \<Rightarrow> jsstring \<Rightarrow> Token list" where
  \<comment> \<open>\<open>[comment, found] = cutPrefix(after, ';'); if (found) yield Comment\<close>\<close>
  "trailing_comment l after =
     (case cutPrefix after [SEMI] of
        (comment, True) \<Rightarrow> [mk l Comment comment None]
      | (_, False) \<Rightarrow> [])"

definition value_part :: "tstate \<Rightarrow> nat \<Rightarrow> jsstring \<Rightarrow> Token list \<times> js_exn option \<times> tstate" where
  \<comment> \<open>from "Check for comment after key/list item" to the end of the loop body\<close>
  "value_part s l currentRest =
     (case cutPrefix currentRest [SEMI] of
        (comment, True) \<Rightarrow> ([mk l Comment comment None], None, s)
      | (_, False) \<Rightarrow>
          (case cutPrefix currentRest [DQUOTE, DQUOTE, DQUOTE] of
             (indicator, True) \<Rightarrow>
               (let (hint, afterHint) = splitLiteral indicator False
                in (mk l MultilineHint hint None # trailing_comment l afterHint, None,
                    s\<lparr>multiline := True, multilineLno := l\<rparr>))
           | (_, False) \<Rightarrow>
               (let (val, afterValue) = splitLiteral currentRest False
                in if val \<noteq> [] then
                     (case decodeLiteral val of
                        Inl e \<Rightarrow> ([], Some e, s)
                      | Inr (decodedValue, err) \<Rightarrow>
                          (mk l Scalar decodedValue err # trailing_comment l afterValue, None, s))
                   else (trailing_comment l afterValue, None, s))))"

definition entry_part :: "tstate \<Rightarrow> nat \<Rightarrow> jsstring \<Rightarrow> Token list \<times> js_exn option \<times> tstate" where
  \<comment> \<open>from "Check for list item" on: the \<open>ListItem\<close> or \<open>MapKey\<close> token, then the value\<close>
  "entry_part s l rest =
     (case cutPrefix rest [EQUALS] of
        (list, True) \<Rightarrow>
          (let (ts, e, s') = value_part s l (snd (trimLeft list))
           in (mk l ListItem [] None # ts, e, s'))
      | (_, False) \<Rightarrow>
          (let (key, afterKey) = splitLiteral rest True
           in case decodeLiteral key of
                Inl e \<Rightarrow> ([], Some e, s)
              | Inr (decodedKey, err) \<Rightarrow>
                  (let trimmedRest = snd (trimLeft afterKey);
                       afterEquals = fst (cutPrefix trimmedRest [EQUALS]);
                       currentRest = (if trimmedRest \<noteq> afterEquals
                                      then snd (trimLeft afterEquals) else trimmedRest);
                       (ts, e, s') = value_part s l currentRest
                   in (mk l MapKey decodedKey err # ts, e, s'))))"

definition tokenize_line :: "tstate \<Rightarrow> nat \<times> jsstring \<Rightarrow> Token list \<times> js_exn option \<times> tstate" where
  \<comment> \<open>one iteration of \<open>for (const [lno, content] of lines(input))\<close>\<close>
  "tokenize_line s0 ln =
     (let l = fst ln; line = snd ln;
          (indent, rest) = trimLeft line;
          (mts, s, continue) = multiline_block s0 l line indent rest
      in if continue then (mts, None, s)
         else if rest = [] then (mts, None, s)
         else
           (case cutPrefix rest [SEMI] of
              (comment, True) \<Rightarrow> (mts @ [mk l Comment comment None], None, s)
            | (_, False) \<Rightarrow>
                (let (n, st) = pop_outdents indent (stack s);
                     outdents = replicate n (mk l Outdent [] None);
                     indents = (if indent \<noteq> hd st then [mk l Indent indent None] else []);
                     st' = (if indent \<noteq> hd st then indent # st else st);
                     (ts, e, s') = entry_part (s\<lparr>stack := st'\<rparr>) l rest
                 in (mts @ outdents @ indents @ ts, e, s'))))"

fun tokenize_lines :: "tstate \<Rightarrow> (nat \<times> jsstring) list \<Rightarrow> Token list \<times> js_exn option \<times> tstate" where
  "tokenize_lines s [] = ([], None, s)"
| "tokenize_lines s (ln # lns) =
     (case tokenize_line s ln of
        (ts, Some e, s') \<Rightarrow> (ts, Some e, s')
      | (ts, None, s') \<Rightarrow>
          (let (ts', e, s'') = tokenize_lines s' lns in (ts @ ts', e, s'')))"

definition remaining_multiline :: "tstate \<Rightarrow> Token list" where
  \<comment> \<open>"Handle any remaining multiline", after the last line\<close>
  "remaining_multiline s =
     (if multiline s then
        (if multilineValue s \<noteq> [] then
           [mk (multilineLno s) MultilineScalar
              (trimRight (multilineValue s) [SPACE, TAB, CR, LF]) None]
         else
           [mk (multilineLno s) MultilineScalar [] (Some (jstr ''missing multiline value''))])
      else [])"

definition tokenize :: "jsstring \<Rightarrow> Token list \<times> js_exn option" where
  "tokenize input =
     (case tokenize_lines init_tstate (lines input) of
        (ts, Some e, s) \<Rightarrow> (ts, Some e)
      | (ts, None, s) \<Rightarrow> (ts @ remaining_multiline s, None))"

section \<open>The tolerant tokenizer: tokens\<close>

text \<open>
  The second pass. Its state is the array \<open>states\<close> (head = last element) and
  \<open>lastLine\<close>. Reading a field of \<open>states[states.length - 1]\<close> when the array is empty
  raises a \<open>TypeError\<close>; a token kind outside the \<open>switch\<close> raises
  \<open>Error('Unknown token kind')\<close>.
\<close>

definition tokens_step ::
  "ParseState list \<times> nat \<Rightarrow> Token \<Rightarrow> Token list \<times> js_exn option \<times> (ParseState list \<times> nat)" where
  "tokens_step st token =
     (let states = fst st; lastLine = snd st in
      case kind token of
        Indent \<Rightarrow>
          (case states of
             [] \<Rightarrow> ([], Some TypeError, st)
           | state # below \<Rightarrow>
               if hasKey state then
                 ([token], None,
                  (ParseState Comment False # ParseState (state_kind state) False # below,
                   lno token))
               else
                 ([mk (lno token)
                     (if state_kind state = Comment then MapKey else state_kind state) []
                     (Some (jstr ''unexpected indent'')),
                   token], None,
                  (ParseState Comment False # state # below, lno token)))
      | Outdent \<Rightarrow>
          (case states of
             [] \<Rightarrow> ([], Some TypeError, st)
           | state # below \<Rightarrow>
               ((if hasKey state then [mk (lno token) NoValue [] None] else []) @ [token],
                None, (below, lno token)))
      | ListItem \<Rightarrow>
          (case states of
             [] \<Rightarrow> ([], Some TypeError, st)
           | state # below \<Rightarrow>
               (let k = (if state_kind state = Comment then ListItem else state_kind state);
                    novalue = (if hasKey state then [mk (lno token) NoValue [] None] else [])
                in if k = MapKey then
                     (novalue @ [mk (lno token) MapKey [] (Some (jstr ''unexpected list item''))],
                      None, (ParseState k True # below, lastLine))
                   else (novalue @ [token], None, (ParseState k True # below, lno token))))
      | MapKey \<Rightarrow>
          (case states of
             [] \<Rightarrow> ([], Some TypeError, st)
           | state # below \<Rightarrow>
               (let k = (if state_kind state = Comment then MapKey else state_kind state);
                    novalue = (if hasKey state then [mk (lno token) NoValue [] None] else [])
                in if k = ListItem then
                     (novalue @ [mk (lno token) ListItem [] (Some (jstr ''unexpected map key''))],
                      None, (ParseState k True # below, lastLine))
                   else (novalue @ [token], None, (ParseState k True # below, lno token))))
      | Scalar \<Rightarrow>
          (case states of
             [] \<Rightarrow> ([], Some TypeError, st)
           | state # below \<Rightarrow>
               ([token], None, (ParseState (state_kind state) False # below, lno token)))
      | MultilineScalar \<Rightarrow>
          (case states of
             [] \<Rightarrow> ([], Some TypeError, st)
           | state # below \<Rightarrow>
               ([token], None, (ParseState (state_kind state) False # below, lno token)))
      | Comment \<Rightarrow> ([token], None, (states, lno token))
      | MultilineHint \<Rightarrow> ([token], None, (states, lno token))
      | NoValue \<Rightarrow> ([], Some (Error (jstr ''Unknown token kind'')), st))"

fun tokens_loop ::
  "ParseState list \<times> nat \<Rightarrow> Token list \<Rightarrow> Token list \<times> js_exn option \<times> (ParseState list \<times> nat)" where
  \<comment> \<open>\<open>for (const token of tokenize(inputStr))\<close>\<close>
  "tokens_loop st [] = ([], None, st)"
| "tokens_loop st (t # ts) =
     (case tokens_step st t of
        (out, Some e, st') \<Rightarrow> (out, Some e, st')
      | (out, None, st') \<Rightarrow>
          (let (out', e, st'') = tokens_loop st' ts in (out @ out', e, st'')))"

fun remaining_states :: "ParseState list \<Rightarrow> nat \<Rightarrow> Token list" where
  \<comment> \<open>"Handle remaining states": \<open>while (states.length > 0)\<close>\<close>
  "remaining_states [] lastLine = []"
| "remaining_states (state # below) lastLine =
     (if hasKey state then [mk lastLine NoValue [] None] else [])
     @ (if below \<noteq> [] then [mk lastLine Outdent [] None] else [])
     @ remaining_states below lastLine"

definition tokens :: "jsstring \<Rightarrow> Token list \<times> js_exn option" where
  \<comment> \<open>the tokens yielded, and the exception that ended the generator, if one did\<close>
  "tokens input =
     (case tokenize input of
        (raw, e) \<Rightarrow>
          (case tokens_loop ([ParseState Comment False], 0) raw of
             (out, Some e', st) \<Rightarrow> (out, Some e')
           | (out, None, st) \<Rightarrow>
               (case e of
                  Some e'' \<Rightarrow> (out, Some e'')
                | None \<Rightarrow> (out @ remaining_states (fst st) (snd st), None))))"

section \<open>Regular expressions\<close>

text \<open>
  \<open>SPLIT_LINE\<close> and the multiline marker test of \<open>tokenizer.ts\<close> are regular
  expressions whose result depends on backtracking. They are kept as data and run by a
  matcher that lists every way to match at the start of the input, in the order in which
  a backtracking engine tries them: a greedy quantifier tries the longer match first, an
  alternation its left branch first. The first entry of the list that lets the rest of
  the expression succeed is the engine's match. An iteration of \<open>*\<close> that consumes nothing
  is rejected, as ECMAScript does. Captures are an association list, newest first; a
  group that did not take part has no entry (\<open>undefined\<close>).
\<close>

datatype rx =
  Cls "jschar \<Rightarrow> bool"  \<comment> \<open>one code unit of a class\<close>
  | Seq rx rx
  | Alt rx rx
  | Star rx
  | Opt rx
  | Grp nat rx  \<comment> \<open>capturing group number \<open>n\<close>\<close>
  | End  \<comment> \<open>\<open>$\<close> without the \<open>m\<close> flag\<close>
  | NotAhead rx  \<comment> \<open>\<open>(?!...)\<close>\<close>

type_synonym captures = "(nat \<times> jsstring) list"

fun rx_all :: "rx \<Rightarrow> jsstring \<times> captures \<Rightarrow> (jsstring \<times> captures) list"
  and rx_star :: "nat \<Rightarrow> rx \<Rightarrow> jsstring \<times> captures \<Rightarrow> (jsstring \<times> captures) list" where
  "rx_all (Cls p) st =
     (case fst st of [] \<Rightarrow> [] | x # xs \<Rightarrow> if p x then [(xs, snd st)] else [])"
| "rx_all (Seq a b) st = concat (map (rx_all b) (rx_all a st))"
| "rx_all (Alt a b) st = rx_all a st @ rx_all b st"
| "rx_all (Star a) st = rx_star (length (fst st)) a st"
| "rx_all (Opt a) st = rx_all a st @ [st]"
| "rx_all (Grp i a) st =
     map (\<lambda>st'. (fst st', (i, take (length (fst st) - length (fst st')) (fst st)) # snd st'))
       (rx_all a st)"
| "rx_all End st = (if fst st = [] then [st] else [])"
| "rx_all (NotAhead a) st = (if rx_all a st = [] then [st] else [])"
| "rx_star 0 a st = [st]"
| "rx_star (Suc n) a st =
     concat (map (rx_star n a)
       (filter (\<lambda>st'. length (fst st') < length (fst st)) (rx_all a st))) @ [st]"

definition rx_match :: "rx \<Rightarrow> jsstring \<Rightarrow> captures option" where
  \<comment> \<open>\<open>s.match(/^.../)\<close>: the captures of the first way to match at index 0, or \<open>null\<close>\<close>
  "rx_match r s = (case rx_all r (s, []) of [] \<Rightarrow> None | st # _ \<Rightarrow> Some (snd st))"

definition key_char :: "jschar \<Rightarrow> bool" where
  \<comment> \<open>\<open>[^=; \t]\<close>\<close>
  "key_char c = (c \<noteq> EQUALS \<and> c \<noteq> SEMI \<and> c \<noteq> SPACE \<and> c \<noteq> TAB)"

definition value_char :: "jschar \<Rightarrow> bool" where
  \<comment> \<open>\<open>[^; \t]\<close>\<close>
  "value_char c = (c \<noteq> SEMI \<and> c \<noteq> SPACE \<and> c \<noteq> TAB)"

definition rx_quoted :: rx where
  \<comment> \<open>\<open>"(?:[^"\\]|\\.)*"\<close>\<close>
  "rx_quoted =
     Seq (Cls (\<lambda>c. c = DQUOTE))
       (Seq (Star (Alt (Cls (\<lambda>c. c \<noteq> DQUOTE \<and> c \<noteq> BSLASH))
                       (Seq (Cls (\<lambda>c. c = BSLASH)) (Cls (\<lambda>c. \<not> is_line_terminator c)))))
            (Cls (\<lambda>c. c = DQUOTE)))"

definition rx_blanks :: rx where
  \<comment> \<open>\<open>[ \t]*\<close>\<close>
  "rx_blanks = Star (Cls is_blank)"

definition rx_unquoted :: "(jschar \<Rightarrow> bool) \<Rightarrow> rx" where
  \<comment> \<open>\<open>(?:[^=; \t]|[ \t][^=; \t])*\<close> for a key, \<open>(?:[^; \t]|[ \t][^; \t])*\<close> for a value\<close>
  "rx_unquoted cls = Star (Alt (Cls cls) (Seq (Cls is_blank) (Cls cls)))"

definition SPLIT_LINE :: rx where
  "SPLIT_LINE =
     Seq (Grp 1 (Seq (Opt rx_quoted) (rx_unquoted key_char)))
       (Seq (Opt (Seq rx_blanks
                   (Seq (Cls (\<lambda>c. c = EQUALS))
                     (Seq rx_blanks
                       (Grp 2 (Seq (Opt rx_quoted) (rx_unquoted value_char)))))))
            (Seq rx_blanks (Alt (Cls (\<lambda>c. c = SEMI)) End)))"

definition MULTILINE_MARK :: rx where
  \<comment> \<open>\<open>/^"""(?![ \t]*")/\<close>\<close>
  "MULTILINE_MARK =
     Seq (Cls (\<lambda>c. c = DQUOTE)) (Seq (Cls (\<lambda>c. c = DQUOTE)) (Seq (Cls (\<lambda>c. c = DQUOTE))
       (NotAhead (Seq (Star (Cls is_blank)) (Cls (\<lambda>c. c = DQUOTE))))))"

section \<open>tokenizer.ts: the tokenizer that parse reads\<close>

text \<open>
  \<open>parser.ts\<close> reads the token kinds \<open>item\<close>, \<open>key\<close>, \<open>scalar\<close>, \<open>null\<close>,
  \<open>indent\<close> and \<open>outdent\<close>: the generator \<open>tokens\<close> of \<open>tokenizer.ts\<close>, which raises
  on the first error. Its names carry the prefix \<open>tz\<close>, since the tolerant tokenizer
  declares the same ones.
\<close>

datatype tz_TokenKind =
  tz_indent | tz_outdent | tz_item | tz_key jsstring | tz_scalar jsstring | tz_null

type_synonym tz_Token = "nat \<times> tz_TokenKind"  \<comment> \<open>\<open>{ lno } & TokenKind\<close>\<close>

function decimal :: "nat \<Rightarrow> jsstring" where
  \<comment> \<open>a non-negative integer converted to a string, as \<open>lno + 1 + ": ..."\<close> and
      \<open>String(result.length)\<close> do\<close>
  "decimal n = (if n < 10 then [0x30 + of_nat n] else decimal (n div 10) @ [0x30 + of_nat (n mod 10)])"
  by pat_completeness auto
termination
  by (relation "measure id") auto

declare decimal.simps [simp del]

definition tz_error :: "nat \<Rightarrow> string \<Rightarrow> js_exn" where
  \<comment> \<open>\<open>new Error(lno + 1 + ": message")\<close>\<close>
  "tz_error l msg = Error (decimal (l + 1) @ jstr '': '' @ jstr msg)"

function tz_replace :: "nat \<Rightarrow> jsstring \<Rightarrow> js_exn + jsstring" where
  \<comment> \<open>\<open>.replace(/\\\{([^}]*)\}|\\(.)|(")/g, callback)\<close>, from the current index on. The
      first alternative matches a backslash and a brace up to the first closing brace,
      the second a backslash and one code unit that is no line terminator, the third a
      double quote; where none matches, the code unit is copied.\<close>
  "tz_replace l [] = Inr []"
| "tz_replace l (c # cs) =
     (if c = BSLASH then
        (case cs of
           [] \<Rightarrow> map_sum id ((#) c) (tz_replace l cs)
         | n # ns \<Rightarrow>
             (case (if n = LBRACE then indexOf ns RBRACE else None) of
                Some j \<Rightarrow>
                  (let hex = take j ns; codePoint = parseInt16 hex
                   in if 8 < length hex \<or> codePoint = None \<or> 0x10FFFF < the codePoint
                         \<or> (0xD800 \<le> the codePoint \<and> the codePoint \<le> 0xDFFF) then
                        Inl (Error (decimal (l + 1) @ jstr '': invalid escape code: ''
                                    @ take (j + 3) (c # cs)))
                      else
                        (case fromCodePoint (the codePoint) of
                           Inl e \<Rightarrow> Inl e
                         | Inr u \<Rightarrow> map_sum id ((@) u) (tz_replace l (drop (Suc j) ns))))
              | None \<Rightarrow>
                  if is_line_terminator n then map_sum id ((#) c) (tz_replace l cs)
                  else if n = 0x6E then map_sum id ((#) LF) (tz_replace l ns)
                  else if n = 0x72 then map_sum id ((#) CR) (tz_replace l ns)
                  else if n = 0x74 then map_sum id ((#) TAB) (tz_replace l ns)
                  else if n = DQUOTE then map_sum id ((#) DQUOTE) (tz_replace l ns)
                  else if n = BSLASH then map_sum id ((#) BSLASH) (tz_replace l ns)
                  else Inl (Error (decimal (l + 1) @ jstr '': invalid escape code: '' @ [c, n]))))
      else if c = DQUOTE then Inl (tz_error l ''characters after quotes'')
      else map_sum id ((#) c) (tz_replace l cs))"
  by pat_completeness auto
termination
  by (relation "measure (\<lambda>(l, s). length s)") auto

definition tz_decodeLiteral :: "nat \<Rightarrow> jsstring \<Rightarrow> js_exn + jsstring" where
  "tz_decodeLiteral l input =
     (if \<not> startsWith input [DQUOTE] then Inr input
      else if \<not> endsWith input [DQUOTE] then Inl (tz_error l ''unclosed quotes'')
      else tz_replace l (substring input 1 (length input - 1)))"

fun tz_split :: "jsstring \<Rightarrow> jsstring \<Rightarrow> jsstring \<Rightarrow> jsstring list" where
  \<comment> \<open>\<open>input.split(/[ \t]*(?:\r\n|\r|\n)/)\<close>: \<open>cur\<close> is the piece so far and \<open>ws\<close> the
      run of blanks just read. The expression matches where a maximal run of blanks is
      followed by a line break, so a run before a line break is dropped with it and any
      other run belongs to the piece.\<close>
  "tz_split cur ws [] = [cur @ ws]"
| "tz_split cur ws (c # cs) =
     (if c = CR then
        (case cs of
           [] \<Rightarrow> [cur, []]
         | d # ds \<Rightarrow> cur # (if d = LF then tz_split [] [] ds else tz_split [] [] (d # ds)))
      else if c = LF then cur # tz_split [] [] cs
      else if is_blank c then tz_split cur (ws @ [c]) cs
      else tz_split (cur @ ws @ [c]) [] cs)"

definition tz_lines :: "jsstring \<Rightarrow> js_exn + (jsstring \<times> jsstring) list" where
  \<comment> \<open>the array \<open>lines\<close> of \<open>{ indent, content }\<close>. \<open>line.match(/^([ \t]*)(.*)$/)\<close> is
      \<open>null\<close> when the piece holds a line terminator, which \<open>.\<close> does not match (only
      U+2028 and U+2029 are left after the split); destructuring \<open>null\<close> raises a
      \<open>TypeError\<close>.\<close>
  "tz_lines input =
     (let pieces = tz_split [] [] input
      in if \<exists>p \<in> set pieces. \<exists>c \<in> set p. is_line_terminator c then Inl TypeError
         else Inr (map (\<lambda>p. (takeWhile is_blank p, dropWhile is_blank p)) pieces))"

fun tz_skip_blank :: "(jsstring \<times> jsstring) list \<Rightarrow> nat" where
  \<comment> \<open>\<open>while (lno + 1 < lines.length && lines[lno + 1].content == "") lno++\<close>: the
      number of lines skipped\<close>
  "tz_skip_blank [] = 0"
| "tz_skip_blank (ln # lns) = (if snd ln = [] then Suc (tz_skip_blank lns) else 0)"

fun remove_first :: "jsstring \<Rightarrow> jsstring \<Rightarrow> jsstring" where
  \<comment> \<open>\<open>s.replace(p, "")\<close> for a string \<open>p\<close>: the first occurrence of \<open>p\<close> is removed\<close>
  "remove_first p [] = []"
| "remove_first p (c # cs) =
     (if startsWith (c # cs) p then drop (length p) (c # cs) else c # remove_first p cs)"

fun tz_body :: "jsstring \<Rightarrow> (jsstring \<times> jsstring) list \<Rightarrow> jsstring \<times> nat" where
  \<comment> \<open>the second loop of \<open>consumeMultiline\<close>: the text appended to \<open>result\<close> and the
      number of lines read\<close>
  "tz_body prefix [] = ([], 0)"
| "tz_body prefix (ln # lns) =
     (if startsWith (fst ln) prefix \<or> snd ln = [] then
        (let (r, k) = tz_body prefix lns
         in ([LF] @ remove_first prefix (fst ln) @ snd ln @ r, Suc k))
      else ([], 0))"

definition tz_consumeMultiline ::
  "nat \<Rightarrow> jsstring \<Rightarrow> (jsstring \<times> jsstring) list \<Rightarrow> js_exn + (jsstring \<times> nat)" where
  \<comment> \<open>\<open>consumeMultiline(indent)\<close> with \<open>lno\<close> at the marker's line and the lines after
      it: the content of the scalar and the number of lines consumed, or the error\<close>
  "tz_consumeMultiline l ind after =
     (let b = tz_skip_blank after; rest = drop b after
      in case rest of
           [] \<Rightarrow> Inl (tz_error (l + b) ''missing multiline value'')
         | first # others \<Rightarrow>
             if \<not> startsWith (fst first) ind \<or> fst first = ind then
               Inl (tz_error (l + b) ''missing multiline value'')
             else
               (let (r, k) = tz_body (fst first) others;
                    result = snd first @ r
                in Inr (rev (dropWhile (\<lambda>c. c = LF) (rev result)), b + 1 + k)))"

text \<open>
  The state of \<open>tokens\<close>: \<open>stack\<close> (head = last element) of \<open>{ indent, kind }\<close> frames,
  where the kind is unset, \<open>item\<close> or \<open>key\<close>, and \<open>lastLno\<close>, where \<open>None\<close> is \<open>-1\<close>.
  \<open>tokenizeLine\<close> is a generator consumed by the loop of \<open>tokens\<close>, so what it does
  and what the loop does for each of its tokens alternate; the functions below follow that
  order, and stop at the first exception with the tokens yielded so far.
\<close>

datatype tz_kind = Unset | Item | Key

record tz_state =
  tz_stack :: "(jsstring \<times> tz_kind) list"
  lastLno :: "nat option"

fun tz_outdents ::
  "nat \<Rightarrow> jsstring \<Rightarrow> (jsstring \<times> tz_kind) list \<Rightarrow> nat option
   \<Rightarrow> tz_Token list \<times> (jsstring \<times> tz_kind) list \<times> nat option" where
  \<comment> \<open>the loop \<open>while (!indent.startsWith(stack.at(-1).indent))\<close>, and for each
      \<open>outdent\<close> the branch \<open>token.kind == "outdent" && lastLno > -1\<close>. The bottom frame
      has the empty indent, so the loop stops there at the latest.\<close>
  "tz_outdents l ind [] lastl = ([], [], lastl)"
| "tz_outdents l ind (frame # below) lastl =
     (if startsWith ind (fst frame) then ([], frame # below, lastl)
      else
        (let (ts, st, lastl') = tz_outdents l ind below None
         in ((case lastl of Some k \<Rightarrow> [(k, tz_null)] | None \<Rightarrow> []) @ [(l, tz_outdent)] @ ts,
             st, lastl')))"

definition tz_value ::
  "nat \<Rightarrow> jsstring \<Rightarrow> jsstring option \<Rightarrow> (jsstring \<times> jsstring) list \<Rightarrow> tz_state
   \<Rightarrow> tz_Token list \<times> js_exn option \<times> tz_state \<times> nat" where
  \<comment> \<open>what follows the key or item: the tokens for \<open>tail\<close>, and the number of further
      lines that \<open>consumeMultiline\<close> read\<close>
  "tz_value l ind tail after s =
     (case tail of
        None \<Rightarrow> ([], None, s, 0)
      | Some t \<Rightarrow>
          if rx_match MULTILINE_MARK t \<noteq> None then
            (case tz_consumeMultiline l ind after of
               Inl e \<Rightarrow> ([], Some e, s\<lparr>lastLno := None\<rparr>, 0)
             | Inr (text, k) \<Rightarrow> ([(l, tz_scalar text)], None, s\<lparr>lastLno := None\<rparr>, k))
          else if t \<noteq> [] then
            (case tz_decodeLiteral l t of
               Inl e \<Rightarrow> ([], Some e, s, 0)
             | Inr text \<Rightarrow> ([(l, tz_scalar text)], None, s\<lparr>lastLno := None\<rparr>, 0))
          else ([], None, s, 0))"

definition tz_entry ::
  "nat \<Rightarrow> jsstring \<Rightarrow> jsstring \<Rightarrow> (jsstring \<times> jsstring) list \<Rightarrow> tz_state
   \<Rightarrow> tz_Token list \<times> js_exn option \<times> tz_state \<times> nat" where
  \<comment> \<open>from \<open>line.match(SPLIT_LINE)\<close> on: the \<open>key\<close> or \<open>item\<close> token, with the branch
      of \<open>tokens\<close> for it, then the value\<close>
  "tz_entry l ind line after s =
     (case rx_match SPLIT_LINE line of
        None \<Rightarrow> ([], Some TypeError, s, 0)
      | Some caps \<Rightarrow>
          (let k = (case map_of caps 1 of Some x \<Rightarrow> x | None \<Rightarrow> []);
               tail = map_of caps 2
           in case (if k \<noteq> [] then map_sum id tz_key (tz_decodeLiteral l k) else Inr tz_item) of
                Inl e \<Rightarrow> ([], Some e, s, 0)
              | Inr token \<Rightarrow>
                  (case tz_stack s of
                     [] \<Rightarrow> ([], Some TypeError, s, 0)
                   | frame # below \<Rightarrow>
                       if snd frame = Item \<and> token \<noteq> tz_item then
                         ([], Some (tz_error l ''unexpected map key''), s, 0)
                       else if snd frame = Key \<and> token = tz_item then
                         ([], Some (tz_error l ''unexpected list item''), s, 0)
                       else
                         (let frame' = (if snd frame = Unset
                                      then (fst frame, if token = tz_item then Item else Key)
                                      else frame);
                              pre = (case lastLno s of Some n \<Rightarrow> [(n, tz_null)] | None \<Rightarrow> []);
                              (ts, e, s', n) =
                                tz_value l ind tail after
                                  (s\<lparr>tz_stack := frame' # below, lastLno := Some l\<rparr>)
                          in (pre @ [(l, token)] @ ts, e, s', n)))))"

definition tz_tokenizeLine ::
  "nat \<Rightarrow> jsstring \<times> jsstring \<Rightarrow> (jsstring \<times> jsstring) list \<Rightarrow> tz_state
   \<Rightarrow> tz_Token list \<times> js_exn option \<times> tz_state \<times> nat" where
  \<comment> \<open>one iteration of \<open>while (lno < lines.length)\<close> up to \<open>lno += 1\<close>, for the line
      at index \<open>l\<close> and the lines after it\<close>
  "tz_tokenizeLine l ln after s =
     (let ind = fst ln; line = snd ln
      in if line = [] \<or> startsWith line [SEMI] then ([], None, s, 0)
         else
           (let (outs, st, lastl) = tz_outdents l ind (tz_stack s) (lastLno s)
            in case st of
                 [] \<Rightarrow> (outs, Some TypeError, s\<lparr>tz_stack := st, lastLno := lastl\<rparr>, 0)
               | frame # below \<Rightarrow>
                   if ind \<noteq> fst frame then
                     (if lastl = None then
                        (outs, Some (tz_error l ''unexpected indent''),
                         s\<lparr>tz_stack := (ind, Unset) # st, lastLno := lastl\<rparr>, 0)
                      else
                        (let (ts, e, s', n) =
                               tz_entry l ind line after
                                 (s\<lparr>tz_stack := (ind, Unset) # st, lastLno := None\<rparr>)
                         in (outs @ [(l, tz_indent)] @ ts, e, s', n)))
                   else
                     (let (ts, e, s', n) =
                            tz_entry l ind line after (s\<lparr>tz_stack := st, lastLno := lastl\<rparr>)
                      in (outs @ ts, e, s', n))))"

function tz_loop ::
  "nat \<Rightarrow> (jsstring \<times> jsstring) list \<Rightarrow> tz_state \<Rightarrow> tz_Token list \<times> js_exn option \<times> tz_state" where
  \<comment> \<open>\<open>while (lno < lines.length)\<close>, with the lines from index \<open>lno\<close> on\<close>
  "tz_loop l [] s = ([], None, s)"
| "tz_loop l (ln # lns) s =
     (case tz_tokenizeLine l ln lns s of
        (ts, Some e, s', n) \<Rightarrow> (ts, Some e, s')
      | (ts, None, s', n) \<Rightarrow>
          (let (ts', e, s'') = tz_loop (l + n + 1) (drop n lns) s' in (ts @ ts', e, s'')))"
  by pat_completeness auto
termination
  by (relation "measure (\<lambda>(l, lns, s). length lns)") auto

definition tz_tokens :: "jsstring \<Rightarrow> tz_Token list \<times> js_exn option" where
  \<comment> \<open>the tokens yielded, and the exception that ended the generator, if one did\<close>
  "tz_tokens input =
     (case tz_lines input of
        Inl e \<Rightarrow> ([], Some e)
      | Inr lns \<Rightarrow>
          (case tz_loop 0 lns \<lparr>tz_stack = [([], Unset)], lastLno = None\<rparr> of
             (ts, Some e, s) \<Rightarrow> (ts, Some e)
           | (ts, None, s) \<Rightarrow>
               (ts @ (case lastLno s of Some k \<Rightarrow> [(k, tz_null)] | None \<Rightarrow> [])
                   @ replicate (length (tz_stack s) - 1) (length lns, tz_outdent), None)))"

section \<open>parser.ts\<close>

text \<open>
  A value is a string, \<open>null\<close>, an object or an array. The reviver is a function of the
  key and the value; it returns such a value again, or a primitive of the caller (a
  number, a boolean, \<open>undefined\<close>), for which the type has the constructor \<open>Ext\<close>. The
  calls made are recorded in order, each with the value it was given.

  An object starts as \<open>{}\<close> and changes only through \<open>result[currentKey] = value\<close>. It
  is modelled by its prototype and the list of its own properties in the order in which
  JavaScript enumerates them: the array indices in ascending order, then the other names
  in the order of their creation. The prototype is \<open>Object.prototype\<close> (\<open>None\<close>) until an
  assignment to \<open>__proto__\<close> replaces it by \<open>null\<close> (\<open>Some Null\<close>) or by an object or
  array (\<open>Some v\<close>).
\<close>

datatype 'a Conl = Str jsstring | Null
  | Map "'a Conl option" "(jsstring \<times> 'a Conl) list"
  | List "'a Conl list"
  | Ext 'a

type_synonym 'a calls = "(jsstring \<times> 'a Conl) list"

definition PROTO :: jsstring where
  "PROTO = jstr ''__proto__''"

definition is_digit :: "jschar \<Rightarrow> bool" where
  "is_digit c = (0x30 \<le> c \<and> c \<le> 0x39)"

fun dec_value :: "int \<Rightarrow> jsstring \<Rightarrow> int" where
  \<comment> \<open>the value of a string of decimal digits, most significant first\<close>
  "dec_value acc [] = acc"
| "dec_value acc (c # cs) = dec_value (10 * acc + (uint c - 0x30)) cs"

definition array_index :: "jsstring \<Rightarrow> int option" where
  \<comment> \<open>the array index that a property name is: the name is the canonical decimal form
      of an integer from 0 to \<open>2^32 - 2\<close>\<close>
  "array_index k =
     (if k \<noteq> [] \<and> list_all is_digit k \<and> (hd k \<noteq> 0x30 \<or> length k = 1)
         \<and> dec_value 0 k < 4294967295
      then Some (dec_value 0 k) else None)"

fun update_prop :: "(jsstring \<times> 'v) list \<Rightarrow> jsstring \<Rightarrow> 'v \<Rightarrow> (jsstring \<times> 'v) list" where
  \<comment> \<open>a new value for an own property: its place in the enumeration stays\<close>
  "update_prop [] k v = []"
| "update_prop (p # ps) k v = (if fst p = k then (k, v) # ps else p # update_prop ps k v)"

fun create_index :: "(jsstring \<times> 'v) list \<Rightarrow> int \<Rightarrow> jsstring \<Rightarrow> 'v \<Rightarrow> (jsstring \<times> 'v) list" where
  \<comment> \<open>a new property whose name is the array index \<open>i\<close>: it is enumerated after the
      smaller array indices and before everything else\<close>
  "create_index [] i k v = [(k, v)]"
| "create_index (p # ps) i k v =
     (case array_index (fst p) of
        Some j \<Rightarrow> if j < i then p # create_index ps i k v else (k, v) # p # ps
      | None \<Rightarrow> (k, v) # p # ps)"

definition create_prop :: "(jsstring \<times> 'v) list \<Rightarrow> jsstring \<Rightarrow> 'v \<Rightarrow> (jsstring \<times> 'v) list" where
  \<comment> \<open>a new own property: another name is enumerated last\<close>
  "create_prop ps k v =
     (case array_index k of Some i \<Rightarrow> create_index ps i k v | None \<Rightarrow> ps @ [(k, v)])"

fun inherits_proto_setter :: "'a Conl \<Rightarrow> bool" where
  \<comment> \<open>whether the lookup of \<open>__proto__\<close> from this object on finds the accessor of
      \<open>Object.prototype\<close>: an own property of that name hides it, and so does a
      prototype chain that ends in \<open>null\<close> before it reaches \<open>Object.prototype\<close>. An
      array has no such own property and inherits from \<open>Object.prototype\<close>.\<close>
  "inherits_proto_setter (Map p ps) =
     (map_of ps PROTO = None \<and> (case p of None \<Rightarrow> True | Some v \<Rightarrow> inherits_proto_setter v))"
| "inherits_proto_setter (List xs) = True"
| "inherits_proto_setter (Str s) = False"
| "inherits_proto_setter Null = False"
| "inherits_proto_setter (Ext x) = False"

definition set_prop :: "'a Conl \<Rightarrow> jsstring \<Rightarrow> 'a Conl \<Rightarrow> 'a Conl" where
  \<comment> \<open>\<open>result[currentKey] = value\<close> for an object \<open>result\<close>: an own property gets the
      value; else, when the name is \<open>__proto__\<close> and the accessor of \<open>Object.prototype\<close>
      is inherited, its setter replaces the prototype by an object, an array or \<open>null\<close>
      and ignores every other value; else the property is created.\<close>
  "set_prop obj k v =
     (case obj of
        Map p ps \<Rightarrow>
          if map_of ps k \<noteq> None then Map p (update_prop ps k v)
          else if k = PROTO \<and> inherits_proto_setter obj then
            (case v of
               Null \<Rightarrow> Map (Some v) ps
             | Map q qs \<Rightarrow> Map (Some v) ps
             | List xs \<Rightarrow> Map (Some v) ps
             | _ \<Rightarrow> obj)
          else Map p (create_prop ps k v)
      | _ \<Rightarrow> obj)"

type_synonym 'a frame = "'a Conl option \<times> jsstring option \<times> 'a calls"
  \<comment> \<open>\<open>result\<close> (\<open>None\<close> is \<open>null\<close>), \<open>currentKey\<close>, and the calls made so far\<close>

definition store :: "(jsstring \<Rightarrow> 'a Conl \<Rightarrow> 'a Conl) \<Rightarrow> 'a frame \<Rightarrow> 'a Conl \<Rightarrow> 'a frame" where
  \<comment> \<open>the two branches shared by \<open>case "scalar": case "null":\<close> and \<open>case "indent":\<close>:
      \<open>if (Array.isArray(result)) ... else if (result && currentKey !== undefined) ...\<close>\<close>
  "store reviver fr v =
     (case fr of (result, currentKey, log) \<Rightarrow>
        (case result of
           Some (List xs) \<Rightarrow>
             (Some (List (xs @ [reviver (decimal (length xs)) v])), currentKey,
              log @ [(decimal (length xs), v)])
         | Some (Map p ps) \<Rightarrow>
             (case currentKey of
                Some k \<Rightarrow>
                  (Some (set_prop (Map p ps) k (reviver k v)), None, log @ [(k, v)])
              | None \<Rightarrow> fr)
         | _ \<Rightarrow> fr))"

definition or_else :: "'a Conl option \<Rightarrow> 'a Conl \<Rightarrow> 'a Conl option" where
  \<comment> \<open>\<open>result ??= v\<close>\<close>
  "or_else result v = (case result of None \<Rightarrow> Some v | Some r \<Rightarrow> Some r)"

definition nested_value :: "'a Conl option \<Rightarrow> 'a Conl" where
  \<comment> \<open>the value \<open>sectionToValue\<close> returned, \<open>null\<close> included\<close>
  "nested_value result = (case result of None \<Rightarrow> Null | Some v \<Rightarrow> v)"

function sectionToValue ::
  "(jsstring \<Rightarrow> 'a Conl \<Rightarrow> 'a Conl) \<Rightarrow> js_exn option \<Rightarrow> tz_Token list \<Rightarrow> 'a frame
   \<Rightarrow> js_exn + ('a frame \<times> tz_Token list)" where
  \<comment> \<open>the loop of \<open>sectionToValue\<close>, with the tokens the iterator has yet to yield and
      the exception that ends it (if any); it returns the frame, whose first component is
      the value returned, and the tokens left\<close>
  "sectionToValue reviver e [] fr = (case e of Some x \<Rightarrow> Inl x | None \<Rightarrow> Inr (fr, []))"
| "sectionToValue reviver e (t # ts) fr =
     (case snd t of
        tz_item \<Rightarrow>
          sectionToValue reviver e ts (or_else (fst fr) (List []), snd fr)
      | tz_key c \<Rightarrow>
          sectionToValue reviver e ts (or_else (fst fr) (Map None []), Some c, snd (snd fr))
      | tz_scalar c \<Rightarrow> sectionToValue reviver e ts (store reviver fr (Str c))
      | tz_null \<Rightarrow> sectionToValue reviver e ts (store reviver fr Null)
      | tz_indent \<Rightarrow>
          (case sectionToValue reviver e ts (None, None, snd (snd fr)) of
             Inl x \<Rightarrow> Inl x
           | Inr (nested, ts') \<Rightarrow>
               sectionToValue reviver e ts'
                 (store reviver (fst fr, fst (snd fr), snd (snd nested))
                    (nested_value (fst nested))))
      | tz_outdent \<Rightarrow> Inr (fr, ts))"
  by pat_completeness auto

lemma sectionToValue_rest:
  "sectionToValue_dom (reviver, e, ts, fr) \<Longrightarrow>
   sectionToValue reviver e ts fr = Inr (fr', ts') \<Longrightarrow> length ts' \<le> length ts"
proof (induction reviver e ts fr arbitrary: fr' ts' rule: sectionToValue.pinduct)
  case (1 reviver e fr)
  then show ?case
    by (auto simp: sectionToValue.psimps split: option.splits)
next
  case (2 reviver e t ts fr)
  note eq = sectionToValue.psimps(2) [OF "2.hyps"]
  show ?case
  proof (cases "snd t")
    case tz_indent
    from "2.prems" tz_indent obtain nested ts1 where
      n: "sectionToValue reviver e ts (None, None, snd (snd fr)) = Inr (nested, ts1)"
      unfolding eq by (auto split: sum.splits prod.splits)
    have l1: "length ts1 \<le> length ts"
      using "2.IH"(1) [OF tz_indent n] .
    have fin: "sectionToValue reviver e ts1
                 (store reviver (fst fr, fst (snd fr), snd (snd nested))
                    (nested_value (fst nested))) = Inr (fr', ts')"
      using "2.prems" tz_indent n unfolding eq by simp
    have "length ts' \<le> length ts1"
      using "2.IH"(2) [OF tz_indent n refl fin] .
    with l1 show ?thesis by simp
  next
    case tz_outdent
    with "2.prems" show ?thesis unfolding eq by simp
  next
    case tz_item
    with "2.prems" have "sectionToValue reviver e ts (or_else (fst fr) (List []), snd fr)
        = Inr (fr', ts')" unfolding eq by simp
    from "2.IH"(3) [OF tz_item this] show ?thesis by simp
  next
    case (tz_key c)
    with "2.prems" have "sectionToValue reviver e ts (or_else (fst fr) (Map None []), Some c, snd (snd fr))
        = Inr (fr', ts')" unfolding eq by simp
    from "2.IH"(4) [OF tz_key this] show ?thesis by simp
  next
    case (tz_scalar c)
    with "2.prems" have "sectionToValue reviver e ts (store reviver fr (Str c))
        = Inr (fr', ts')" unfolding eq by simp
    from "2.IH"(5) [OF tz_scalar this] show ?thesis by simp
  next
    case tz_null
    with "2.prems" have "sectionToValue reviver e ts (store reviver fr Null)
        = Inr (fr', ts')" unfolding eq by simp
    from "2.IH"(6) [OF tz_null this] show ?thesis by simp
  qed
qed

termination sectionToValue
  by (relation "measure (\<lambda>(reviver, e, ts, fr). length ts)")
     (auto simp: less_Suc_eq_le intro: sectionToValue_rest)

definition parse :: "(jsstring \<Rightarrow> 'a Conl \<Rightarrow> 'a Conl) \<Rightarrow> jsstring \<Rightarrow> js_exn + ('a Conl \<times> 'a calls)" where
  \<comment> \<open>\<open>parse(input, reviver)\<close>: the value returned and the calls of the reviver in order,
      or the exception raised\<close>
  "parse reviver input =
     (case tz_tokens input of (ts, e) \<Rightarrow>
        (case sectionToValue reviver e ts (None, None, []) of
           Inl x \<Rightarrow> Inl x
         | Inr (fr, rest) \<Rightarrow>
             (let result = (case fst fr of None \<Rightarrow> Map None [] | Some v \<Rightarrow> v)
              in Inr (reviver [] result, snd (snd fr) @ [([], result)]))))"

definition identity :: "jsstring \<Rightarrow> 'a Conl \<Rightarrow> 'a Conl" where
  \<comment> \<open>the default \<open>reviver ??= (_, value) => value\<close>\<close>
  "identity k v = v"

section \<open>Properties of token streams\<close>

text \<open>
  The notions the statements below are written in: the number of tokens of a kind, the
  replay of a token stream against a nesting depth (\<open>None\<close> when an \<open>Outdent\<close> arrives
  at depth 0), and the replay against a stack of section kinds, which fails where a
  section holds both a \<open>ListItem\<close> and a \<open>MapKey\<close>.
\<close>

definition count_kind :: "TokenKind \<Rightarrow> Token list \<Rightarrow> nat" where
  "count_kind k ts = length (filter (\<lambda>t. kind t = k) ts)"

fun depth_after :: "nat \<Rightarrow> Token list \<Rightarrow> nat option" where
  "depth_after d [] = Some d"
| "depth_after d (t # ts) =
     (if kind t = Indent then depth_after (Suc d) ts
      else if kind t = Outdent then (case d of 0 \<Rightarrow> None | Suc d' \<Rightarrow> depth_after d' ts)
      else depth_after d ts)"

definition flat :: "Token list \<Rightarrow> bool" where
  "flat ts = (\<forall>t \<in> set ts. kind t \<noteq> Indent \<and> kind t \<noteq> Outdent \<and> kind t \<noteq> NoValue)"

definition stack_ok :: "jsstring list \<Rightarrow> bool" where
  "stack_ok st = (st \<noteq> [] \<and> last st = [])"

definition no_novalue :: "Token list \<Rightarrow> bool" where
  "no_novalue ts = (\<forall>t \<in> set ts. kind t \<noteq> NoValue)"

definition states_ok :: "ParseState list \<Rightarrow> bool" where
  "states_ok sts =
     (sts \<noteq> [] \<and> (\<forall>p \<in> set sts. state_kind p = Comment \<or> state_kind p = ListItem
                                   \<or> state_kind p = MapKey))"

fun sections_uniform :: "TokenKind option list \<Rightarrow> Token list \<Rightarrow> bool" where
  "sections_uniform stk [] = True"
| "sections_uniform stk (t # ts) =
     (if kind t = Indent then sections_uniform (None # stk) ts
      else if kind t = Outdent then sections_uniform (tl stk) ts
      else if kind t = ListItem \<or> kind t = MapKey then
        (case stk of
           [] \<Rightarrow> False
         | None # below \<Rightarrow> sections_uniform (Some (kind t) # below) ts
         | Some k # below \<Rightarrow> k = kind t \<and> sections_uniform stk ts)
      else sections_uniform stk ts)"


section \<open>Notions for the claims about decoding and parsing\<close>

text \<open>
  \<open>utf16\<close> is the UTF-16 form of a code point and \<open>invalid_scalar\<close> the code points
  that are no Unicode scalar values. \<open>plain\<close> text holds neither a backslash nor a double
  quote. \<open>is_value_token\<close> marks the tokens that produce a value. A line is blank or a comment
  when nothing or a semicolon follows its leading blanks.
\<close>

definition utf16 :: "int \<Rightarrow> jsstring" where
  "utf16 cp =
     (if cp < 0x10000 then [word_of_int cp]
      else [0xD800 + word_of_int ((cp - 0x10000) div 0x400),
            0xDC00 + word_of_int ((cp - 0x10000) mod 0x400)])"

definition invalid_scalar :: "int \<Rightarrow> bool" where
  "invalid_scalar v = (0x10FFFF < v \<or> (0xD800 \<le> v \<and> v \<le> 0xDFFF))"

definition plain :: "jsstring \<Rightarrow> bool" where
  "plain xs = (\<forall>c \<in> set xs. c \<noteq> BSLASH \<and> c \<noteq> DQUOTE)"


definition container :: "'a Conl option \<Rightarrow> bool" where
  "container res = (case res of None \<Rightarrow> True | Some (Map p ps) \<Rightarrow> True | Some (List xs) \<Rightarrow> True
                    | _ \<Rightarrow> False)"

definition blank_or_comment :: "jsstring \<Rightarrow> bool" where
  "blank_or_comment l = (dropWhile is_blank l = [] \<or> hd (dropWhile is_blank l) = SEMI)"

definition only_blank_and_comments :: "jsstring \<Rightarrow> bool" where
  "only_blank_and_comments input =
     (\<forall>ln \<in> set (lines input).
        blank_or_comment (snd ln) \<and> (\<forall>c \<in> set (snd ln). \<not> is_line_terminator c))"

definition good_line :: "jsstring \<Rightarrow> bool" where
  "good_line l = (blank_or_comment l \<and> (\<forall>c \<in> set l. \<not> is_line_terminator c))"

text \<open>
  The same notions for the token stream of \<open>tokenizer.ts\<close>, whose tokens are pairs of a
  line number and a kind.
\<close>

definition tz_count :: "tz_TokenKind \<Rightarrow> tz_Token list \<Rightarrow> nat" where
  "tz_count k ts = length (filter (\<lambda>t. snd t = k) ts)"

fun tz_depth_after :: "nat \<Rightarrow> tz_Token list \<Rightarrow> nat option" where
  "tz_depth_after d [] = Some d"
| "tz_depth_after d (t # ts) =
     (if snd t = tz_indent then tz_depth_after (Suc d) ts
      else if snd t = tz_outdent then (case d of 0 \<Rightarrow> None | Suc d' \<Rightarrow> tz_depth_after d' ts)
      else tz_depth_after d ts)"

definition tz_flat :: "tz_Token list \<Rightarrow> bool" where
  "tz_flat ts = (\<forall>t \<in> set ts. snd t \<noteq> tz_indent \<and> snd t \<noteq> tz_outdent)"

definition tz_stack_ok :: "(jsstring \<times> tz_kind) list \<Rightarrow> bool" where
  "tz_stack_ok st = (st \<noteq> [] \<and> fst (last st) = [])"

text \<open>
  A quoted literal read as the spec reads it: a sequence of pieces, each a code unit
  that stands for itself, one of the escapes \<open>\n \r \t \" \\\<close>, or an escape
  \<open>\{HEX}\<close>. \<open>piece_text\<close> is what the document holds for a piece and \<open>piece_value\<close>
  what the piece stands for; \<open>piece_ok\<close> says that the piece is written as the spec
  allows, \<open>piece_valid\<close> moreover that a \<open>\{HEX}\<close> names a Unicode scalar value.
\<close>

datatype piece = Plain jschar | Simple jschar | HexEsc jsstring

fun piece_text :: "piece \<Rightarrow> jsstring" where
  "piece_text (Plain c) = [c]"
| "piece_text (Simple c) = [BSLASH, c]"
| "piece_text (HexEsc hs) = BSLASH # LBRACE # hs @ [RBRACE]"

fun piece_value :: "piece \<Rightarrow> jsstring" where
  "piece_value (Plain c) = [c]"
| "piece_value (Simple c) =
     (if c = 0x6E then [LF] else if c = 0x72 then [CR] else if c = 0x74 then [TAB] else [c])"
| "piece_value (HexEsc hs) = utf16 (hex_value 0 hs)"

fun piece_ok :: "piece \<Rightarrow> bool" where
  "piece_ok (Plain c) = (c \<noteq> BSLASH \<and> c \<noteq> DQUOTE)"
| "piece_ok (Simple c) = (c = 0x6E \<or> c = 0x72 \<or> c = 0x74 \<or> c = DQUOTE \<or> c = BSLASH)"
| "piece_ok (HexEsc hs) = (hs \<noteq> [] \<and> length hs \<le> 8 \<and> list_all is_hex hs)"

fun piece_valid :: "piece \<Rightarrow> bool" where
  "piece_valid (HexEsc hs) = (piece_ok (HexEsc hs) \<and> \<not> invalid_scalar (hex_value 0 hs))"
| "piece_valid p = piece_ok p"

definition literal_text :: "piece list \<Rightarrow> jsstring" where
  \<comment> \<open>the quoted literal made of the pieces\<close>
  "literal_text ps = DQUOTE # concat (map piece_text ps) @ [DQUOTE]"

definition literal_value :: "piece list \<Rightarrow> jsstring" where
  \<comment> \<open>the string the literal stands for\<close>
  "literal_value ps = concat (map piece_value ps)"

section \<open>Documents\<close>

text \<open>
  The tree that a document describes, before any value is built: a scalar, a missing
  value, a section of keys with their values, or a section of list items, each in the
  order of the document; a key may occur more than once. \<open>value_kinds\<close> are the tokens
  that stand for a value (a nested section is enclosed in \<open>indent\<close> and \<open>outdent\<close>), and
  \<open>section_kinds\<close> the tokens of the document itself, which is one implicit section.

  \<open>doc_value\<close> and \<open>doc_calls\<close> say what the spec asks of the tree builder: the value of
  a scalar is its text and that of a missing value is \<open>null\<close>; the value of a section is
  built from the values of its entries in the order of the document, each first given to
  the transform with its key or its index, a list by appending and a map by
  \<open>result[key] = value\<close>; the transform is called for the children of a value before
  it is called for the value, and for an entry before the entries that follow it.
\<close>

datatype doc = DStr jsstring | DNull | DMap "(jsstring \<times> doc) list" | DList "doc list"

fun value_kinds :: "doc \<Rightarrow> tz_TokenKind list"
  and map_kinds :: "(jsstring \<times> doc) list \<Rightarrow> tz_TokenKind list"
  and list_kinds :: "doc list \<Rightarrow> tz_TokenKind list" where
  "value_kinds (DStr s) = [tz_scalar s]"
| "value_kinds DNull = [tz_null]"
| "value_kinds (DMap es) = tz_indent # map_kinds es @ [tz_outdent]"
| "value_kinds (DList ds) = tz_indent # list_kinds ds @ [tz_outdent]"
| "map_kinds [] = []"
| "map_kinds (e # es) = tz_key (fst e) # value_kinds (snd e) @ map_kinds es"
| "list_kinds [] = []"
| "list_kinds (d # ds) = tz_item # value_kinds d @ list_kinds ds"


fun nested_ok :: "doc \<Rightarrow> bool"
  and entries_ok :: "(jsstring \<times> doc) list \<Rightarrow> bool"
  and items_ok :: "doc list \<Rightarrow> bool" where
  \<comment> \<open>a nested section has at least one entry\<close>
  "nested_ok (DStr s) = True"
| "nested_ok DNull = True"
| "nested_ok (DMap es) = (es \<noteq> [] \<and> entries_ok es)"
| "nested_ok (DList ds) = (ds \<noteq> [] \<and> items_ok ds)"
| "entries_ok [] = True"
| "entries_ok (e # es) = (nested_ok (snd e) \<and> entries_ok es)"
| "items_ok [] = True"
| "items_ok (d # ds) = (nested_ok d \<and> items_ok ds)"


fun doc_value :: "(jsstring \<Rightarrow> 'a Conl \<Rightarrow> 'a Conl) \<Rightarrow> doc \<Rightarrow> 'a Conl"
  and map_value :: "(jsstring \<Rightarrow> 'a Conl \<Rightarrow> 'a Conl) \<Rightarrow> 'a Conl \<Rightarrow> (jsstring \<times> doc) list \<Rightarrow> 'a Conl"
  and list_value :: "(jsstring \<Rightarrow> 'a Conl \<Rightarrow> 'a Conl) \<Rightarrow> 'a Conl list \<Rightarrow> doc list \<Rightarrow> 'a Conl list" where
  "doc_value r (DStr s) = Str s"
| "doc_value r DNull = Null"
| "doc_value r (DMap es) = map_value r (Map None []) es"
| "doc_value r (DList ds) = List (list_value r [] ds)"
| "map_value r obj [] = obj"
| "map_value r obj (e # es) = map_value r (set_prop obj (fst e) (r (fst e) (doc_value r (snd e)))) es"
| "list_value r xs [] = xs"
| "list_value r xs (d # ds) = list_value r (xs @ [r (decimal (length xs)) (doc_value r d)]) ds"

fun doc_calls :: "(jsstring \<Rightarrow> 'a Conl \<Rightarrow> 'a Conl) \<Rightarrow> doc \<Rightarrow> 'a calls"
  and map_calls :: "(jsstring \<Rightarrow> 'a Conl \<Rightarrow> 'a Conl) \<Rightarrow> (jsstring \<times> doc) list \<Rightarrow> 'a calls"
  and list_calls :: "(jsstring \<Rightarrow> 'a Conl \<Rightarrow> 'a Conl) \<Rightarrow> nat \<Rightarrow> doc list \<Rightarrow> 'a calls" where
  \<comment> \<open>the calls of the transform for what lies below a value, each with the key or the
      index and the value it is given\<close>
  "doc_calls r (DStr s) = []"
| "doc_calls r DNull = []"
| "doc_calls r (DMap es) = map_calls r es"
| "doc_calls r (DList ds) = list_calls r 0 ds"
| "map_calls r [] = []"
| "map_calls r (e # es) = doc_calls r (snd e) @ [(fst e, doc_value r (snd e))] @ map_calls r es"
| "list_calls r n [] = []"
| "list_calls r n (d # ds) =
     doc_calls r d @ [(decimal n, doc_value r d)] @ list_calls r (Suc n) ds"














section \<open>Nesting depth of the raw and of the validated stream\<close>

lemma kind_mk [simp]: "kind (mk l k c e) = k"
  by (simp add: mk_def)

lemma depth_after_append:
  "depth_after d (xs @ ys) = (case depth_after d xs of None \<Rightarrow> None | Some d' \<Rightarrow> depth_after d' ys)"
  by (induction xs arbitrary: d) (auto split: nat.splits)

lemma depth_after_flat: "flat ts \<Longrightarrow> depth_after d ts = Some d"
  by (induction ts arbitrary: d) (auto simp: flat_def)

lemma flat_append [simp]: "flat (xs @ ys) = (flat xs \<and> flat ys)"
  by (auto simp: flat_def)

lemma flat_Nil [simp]: "flat []"
  by (simp add: flat_def)

lemma flat_Cons [simp]:
  "flat (t # ts) = (kind t \<noteq> Indent \<and> kind t \<noteq> Outdent \<and> kind t \<noteq> NoValue \<and> flat ts)"
  by (auto simp: flat_def)

lemma depth_after_outdents:
  "n \<le> d \<Longrightarrow> depth_after d (replicate n (mk l Outdent c e)) = Some (d - n)"
  by (induction n arbitrary: d) (auto split: nat.splits)

lemma depth_after_counts:
  "depth_after d ts = Some d' \<Longrightarrow> d + count_kind Indent ts = d' + count_kind Outdent ts"
proof (induction ts arbitrary: d)
  case Nil
  then show ?case by (simp add: count_kind_def)
next
  case (Cons t ts)
  show ?case
  proof (cases "kind t = Indent")
    case True
    with Cons.prems have "depth_after (Suc d) ts = Some d'" by simp
    from Cons.IH [OF this] True show ?thesis by (simp add: count_kind_def)
  next
    case False
    show ?thesis
    proof (cases "kind t = Outdent")
      case True
      with Cons.prems obtain d0 where d: "d = Suc d0" "depth_after d0 ts = Some d'"
        by (cases d) auto
      from Cons.IH [OF d(2)] True d(1) show ?thesis by (simp add: count_kind_def)
    next
      case no: False
      with False Cons.prems have "depth_after d ts = Some d'" by simp
      from Cons.IH [OF this] False no show ?thesis by (simp add: count_kind_def)
    qed
  qed
qed

lemma depth_after_take:
  assumes "depth_after d ts = Some d'"
  shows "\<exists>d''. depth_after d (take n ts) = Some d''"
proof -
  from assms have "depth_after d (take n ts @ drop n ts) = Some d'" by simp
  then show ?thesis
    unfolding depth_after_append by (cases "depth_after d (take n ts)") auto
qed

lemma pop_outdents_ok:
  "stack_ok st \<Longrightarrow> pop_outdents ind st = (n, st') \<Longrightarrow> stack_ok st' \<and> length st' + n = length st"
proof (induction st arbitrary: n st')
  case Nil
  then show ?case by (simp add: stack_ok_def)
next
  case (Cons t ts)
  show ?case
  proof (cases "startsWith ind t")
    case True
    with Cons.prems show ?thesis by simp
  next
    case False
    with Cons.prems have "ts \<noteq> []"
      by (auto simp: stack_ok_def startsWith_def)
    with Cons.prems have ok: "stack_ok ts" by (simp add: stack_ok_def)
    obtain m st1 where p: "pop_outdents ind ts = (m, st1)" by (cases "pop_outdents ind ts")
    from Cons.IH [OF ok p] Cons.prems False p show ?thesis by auto
  qed
qed

lemma trailing_comment_flat [simp]: "flat (trailing_comment l a)"
  by (simp add: trailing_comment_def split: prod.splits bool.splits)

lemma value_part_flat:
  "value_part s l r = (ts, e, s') \<Longrightarrow> flat ts \<and> stack s' = stack s"
  by (auto simp: value_part_def Let_def split: prod.splits bool.splits if_splits sum.splits)

lemma entry_part_flat:
  "entry_part s l r = (ts, e, s') \<Longrightarrow> flat ts \<and> stack s' = stack s"
  by (auto simp: entry_part_def Let_def split: prod.splits bool.splits if_splits sum.splits
      dest!: value_part_flat)

lemma multiline_block_flat:
  "multiline_block s l line ind r = (ts, s', c) \<Longrightarrow> flat ts \<and> stack s' = stack s"
  by (auto simp: multiline_block_def split: if_splits)

lemma no_novalue_simps [simp]:
  "no_novalue []"
  "no_novalue (t # ts) = (kind t \<noteq> NoValue \<and> no_novalue ts)"
  "no_novalue (xs @ ys) = (no_novalue xs \<and> no_novalue ys)"
  by (auto simp: no_novalue_def)

lemma flat_no_novalue: "flat ts \<Longrightarrow> no_novalue ts"
  by (auto simp: flat_def no_novalue_def)

lemma no_novalue_replicate [simp]: "no_novalue (replicate n (mk l Outdent c e))"
  by (auto simp: no_novalue_def)

lemma tokenize_line_depth:
  assumes ok: "stack_ok (stack s)" and run: "tokenize_line s ln = (ts, e, s')"
  shows "stack_ok (stack s') \<and> no_novalue ts
         \<and> depth_after (length (stack s) - 1) ts = Some (length (stack s') - 1)"
proof -
  obtain ind rest where tl: "trimLeft (snd ln) = (ind, rest)" by (cases "trimLeft (snd ln)")
  obtain mts s1 c where mb: "multiline_block s (fst ln) (snd ln) ind rest = (mts, s1, c)"
    by (cases "multiline_block s (fst ln) (snd ln) ind rest")
  from multiline_block_flat [OF mb] have mflat: "flat mts" and st1: "stack s1 = stack s"
    by simp_all
  show ?thesis
  proof (cases "c \<or> rest = [] \<or> snd (cutPrefix rest [SEMI])")
    case True
    with run tl mb have "(ts = mts \<or> (\<exists>cm. ts = mts @ [mk (fst ln) Comment cm None])) \<and> s' = s1"
      by (auto simp: tokenize_line_def Let_def split: prod.splits bool.splits if_splits)
    with mflat st1 ok show ?thesis
      by (auto simp: depth_after_flat flat_no_novalue)
  next
    case False
    obtain n st where po: "pop_outdents ind (stack s1) = (n, st)"
      by (cases "pop_outdents ind (stack s1)")
    from pop_outdents_ok [OF _ po] ok st1
    have stok: "stack_ok st" and len: "length st + n = length (stack s)" by simp_all
    define st' where "st' = (if ind \<noteq> hd st then ind # st else st)"
    define indents where
      "indents = (if ind \<noteq> hd st then [mk (fst ln) Indent ind None] else [])"
    obtain ets ee es where ep: "entry_part (s1\<lparr>stack := st'\<rparr>) (fst ln) rest = (ets, ee, es)"
      by (cases "entry_part (s1\<lparr>stack := st'\<rparr>) (fst ln) rest")
    from entry_part_flat [OF ep] have eflat: "flat ets" and es: "stack es = st'" by simp_all
    from False run tl mb po ep
    have ts: "ts = mts @ replicate n (mk (fst ln) Outdent [] None) @ indents @ ets"
      and s': "s' = es"
      by (auto simp: tokenize_line_def Let_def st'_def indents_def
          split: prod.splits bool.splits if_splits)
    from stok have ne: "st \<noteq> []" by (simp add: stack_ok_def)
    with len have nle: "n \<le> length (stack s) - 1" by (cases st) auto
    have ok': "stack_ok st'" using stok by (auto simp: st'_def stack_ok_def)
    have d1: "depth_after (length (stack s) - 1) (replicate n (mk (fst ln) Outdent [] None))
              = Some (length st - 1)"
      using depth_after_outdents [OF nle] len by simp
    have d2: "depth_after (length st - 1) indents = Some (length st' - 1)"
      using ne by (cases st) (auto simp: indents_def st'_def)
    have "depth_after (length (stack s) - 1) ts = Some (length st' - 1)"
      unfolding ts using d1 d2
      by (simp add: depth_after_append depth_after_flat [OF mflat]
          depth_after_flat [OF eflat])
    moreover have "no_novalue ts"
      unfolding ts using mflat eflat
      by (auto simp: flat_no_novalue indents_def)
    ultimately show ?thesis using ok' es s' by simp
  qed
qed

lemma tokenize_lines_depth:
  "stack_ok (stack s) \<Longrightarrow> tokenize_lines s lns = (ts, e, s') \<Longrightarrow>
   stack_ok (stack s') \<and> no_novalue ts
   \<and> depth_after (length (stack s) - 1) ts = Some (length (stack s') - 1)"
proof (induction lns arbitrary: s ts e s')
  case Nil
  then show ?case by simp
next
  case (Cons ln lns)
  obtain t1 e1 s1 where l: "tokenize_line s ln = (t1, e1, s1)"
    by (cases "tokenize_line s ln")
  note h = tokenize_line_depth [OF Cons.prems(1) l]
  show ?case
  proof (cases e1)
    case (Some x)
    with Cons.prems(2) l have "ts = t1" "s' = s1" by simp_all
    with h show ?thesis by simp
  next
    case None
    obtain t2 e2 s2 where r: "tokenize_lines s1 lns = (t2, e2, s2)"
      by (cases "tokenize_lines s1 lns")
    from None Cons.prems(2) l r have eq: "ts = t1 @ t2" "s' = s2" by simp_all
    from h have ok1: "stack_ok (stack s1)" by simp
    from Cons.IH [OF ok1 r] h eq show ?thesis
      by (simp add: depth_after_append)
  qed
qed

lemma tokenize_depth:
  "tokenize input = (raw, e) \<Longrightarrow> no_novalue raw \<and> (\<exists>d. depth_after 0 raw = Some d)"
proof -
  assume t: "tokenize input = (raw, e)"
  obtain ts e1 s where r: "tokenize_lines init_tstate (lines input) = (ts, e1, s)"
    by (cases "tokenize_lines init_tstate (lines input)")
  have ok: "stack_ok (stack init_tstate)" by (simp add: init_tstate_def stack_ok_def)
  from tokenize_lines_depth [OF ok r]
  have h: "no_novalue ts" "depth_after 0 ts = Some (length (stack s) - 1)"
    by (simp_all add: init_tstate_def)
  have fl: "flat (remaining_multiline s)"
    by (simp add: remaining_multiline_def)
  from t r have "raw = ts \<or> raw = ts @ remaining_multiline s"
    by (auto simp: tokenize_def split: option.splits)
  with h fl show ?thesis
    by (auto simp: depth_after_append depth_after_flat flat_no_novalue)
qed

lemma tokens_step_depth:
  assumes "states_ok sts" and "kind t \<noteq> NoValue"
    and "depth_after (length sts - 1) [t] = Some d'"
  shows "\<exists>out sts' l'. tokens_step (sts, l) t = (out, None, (sts', l')) \<and> states_ok sts'
           \<and> length sts' = d' + 1 \<and> depth_after (length sts - 1) out = Some d'"
proof -
  from assms(1) obtain state below where sts: "sts = state # below"
    by (cases sts) (auto simp: states_ok_def)
  show ?thesis
  proof (cases "kind t")
    case Outdent
    with assms(3) sts obtain b bs where "below = b # bs"
      by (cases below) auto
    with Outdent assms sts show ?thesis
      by (auto simp: tokens_step_def states_ok_def)
  next
    case Indent
    with assms sts show ?thesis
      by (auto simp: tokens_step_def states_ok_def)
  next
    case ListItem
    with assms sts show ?thesis
      by (auto simp: tokens_step_def states_ok_def Let_def)
  next
    case MapKey
    with assms sts show ?thesis
      by (auto simp: tokens_step_def states_ok_def Let_def)
  next
    case NoValue
    with assms show ?thesis by simp
  qed (use assms sts in \<open>auto simp: tokens_step_def states_ok_def\<close>)
qed

lemma tokens_loop_depth:
  "states_ok sts \<Longrightarrow> no_novalue raw \<Longrightarrow> depth_after (length sts - 1) raw = Some d' \<Longrightarrow>
   \<exists>out sts' l'. tokens_loop (sts, l) raw = (out, None, (sts', l')) \<and> states_ok sts'
      \<and> length sts' = d' + 1 \<and> depth_after (length sts - 1) out = Some d'"
proof (induction raw arbitrary: sts l)
  case Nil
  then show ?case by (auto simp: states_ok_def)
next
  case (Cons t raw)
  from Cons.prems(3) have "depth_after (length sts - 1) ([t] @ raw) = Some d'" by simp
  then obtain d1 where d1: "depth_after (length sts - 1) [t] = Some d1"
    and d2: "depth_after d1 raw = Some d'"
    unfolding depth_after_append by (cases "depth_after (length sts - 1) [t]") auto
  from Cons.prems(2) have nv: "kind t \<noteq> NoValue" "no_novalue raw" by simp_all
  from tokens_step_depth [OF Cons.prems(1) nv(1) d1, of l]
  obtain out1 sts1 l1 where s1: "tokens_step (sts, l) t = (out1, None, (sts1, l1))"
    and ok1: "states_ok sts1" and len1: "length sts1 = d1 + 1"
    and o1: "depth_after (length sts - 1) out1 = Some d1" by blast
  from d2 len1 have "depth_after (length sts1 - 1) raw = Some d'" by simp
  from Cons.IH [OF ok1 nv(2) this, of l1]
  obtain out2 sts2 l2 where s2: "tokens_loop (sts1, l1) raw = (out2, None, (sts2, l2))"
    and ok2: "states_ok sts2" and len2: "length sts2 = d' + 1"
    and o2: "depth_after (length sts1 - 1) out2 = Some d'" by blast
  from s1 s2 have "tokens_loop (sts, l) (t # raw) = (out1 @ out2, None, (sts2, l2))"
    by simp
  moreover from o1 o2 len1 have "depth_after (length sts - 1) (out1 @ out2) = Some d'"
    by (simp add: depth_after_append)
  ultimately show ?case using ok2 len2 by blast
qed

lemma remaining_states_depth:
  "sts \<noteq> [] \<Longrightarrow> depth_after (length sts - 1) (remaining_states sts l) = Some 0"
proof (induction sts rule: list_nonempty_induct)
  case (single p)
  show ?case by (simp add: depth_after_append)
next
  case (cons p ps)
  have "remaining_states (p # ps) l =
          (if hasKey p then [mk l NoValue [] None] else []) @ [mk l Outdent [] None]
          @ remaining_states ps l"
    using cons.hyps by simp
  moreover from cons.hyps obtain k where "length ps = Suc k"
    by (cases ps) auto
  ultimately show ?case using cons.IH
    by (simp add: depth_after_append del: remaining_states.simps)
qed

lemma tokens_depth:
  "\<exists>d. depth_after 0 (fst (tokens input)) = Some d \<and> (snd (tokens input) = None \<longrightarrow> d = 0)"
proof -
  obtain raw e where t: "tokenize input = (raw, e)" by (cases "tokenize input")
  from tokenize_depth [OF t] obtain d where nv: "no_novalue raw"
    and d: "depth_after 0 raw = Some d" by blast
  have ok: "states_ok [ParseState Comment False]" by (simp add: states_ok_def)
  from tokens_loop_depth [OF ok nv, of d 0] d
  obtain out sts' l' where
    lp: "tokens_loop ([ParseState Comment False], 0) raw = (out, None, (sts', l'))"
    and ok': "states_ok sts'" and len: "length sts' = d + 1"
    and od: "depth_after 0 out = Some d" by auto
  show ?thesis
  proof (cases e)
    case None
    with t lp have "tokens input = (out @ remaining_states sts' l', None)"
      by (simp add: tokens_def)
    moreover from ok' have "sts' \<noteq> []" by (simp add: states_ok_def)
    from remaining_states_depth [OF this, of l'] len
    have "depth_after d (remaining_states sts' l') = Some 0" by simp
    ultimately show ?thesis using od by (simp add: depth_after_append)
  next
    case (Some x)
    with t lp have "tokens input = (out, Some x)" by (simp add: tokens_def)
    with od show ?thesis by simp
  qed
qed

section \<open>Decoding of hexadecimal escapes\<close>

lemma is_hex_cases:
  "is_hex c \<Longrightarrow> (0x30 \<le> c \<and> c \<le> 0x39) \<or> (0x41 \<le> c \<and> c \<le> 0x46) \<or> (0x61 \<le> c \<and> c \<le> 0x66)"
  by (auto simp: is_hex_def hex_digit_def split: if_splits)

lemma is_hex_plain:
  assumes "is_hex c"
  shows "c \<noteq> RBRACE" "c \<noteq> BSLASH" "c \<noteq> DQUOTE" "c \<noteq> 0x2D" "c \<noteq> 0x2B" "c \<noteq> 0x78"
    "c \<noteq> 0x58" "\<not> is_js_space c"
  using is_hex_cases [OF assms]
  by (auto simp: is_js_space_def word_le_nat_alt)

lemma hex_digit_range: "hex_digit c = Some d \<Longrightarrow> 0 \<le> d \<and> d < 16"
  by (auto simp: hex_digit_def word_le_def split: if_splits)

lemma indexOf_append:
  "c \<notin> set xs \<Longrightarrow> indexOf (xs @ c # ys) c = Some (length xs)"
  by (induction xs) auto

lemma hex_value_nonneg:
  "0 \<le> acc \<Longrightarrow> \<forall>c \<in> set hs. is_hex c \<Longrightarrow> 0 \<le> hex_value acc hs"
proof (induction hs arbitrary: acc)
  case Nil
  then show ?case by simp
next
  case (Cons c hs)
  from Cons.prems(2) obtain d where d: "hex_digit c = Some d"
    by (auto simp: is_hex_def)
  with hex_digit_range [OF d] Cons.prems(1) have "0 \<le> 16 * acc + the (hex_digit c)" by simp
  from Cons.IH [OF this] Cons.prems(2) show ?case by simp
qed

lemma parseInt16_hex:
  assumes "hs \<noteq> []" and "\<forall>c \<in> set hs. is_hex c"
  shows "parseInt16 hs = Some (hex_value 0 hs)"
proof -
  from assms have c: "is_hex (hd hs)" by (cases hs) auto
  have s1: "dropWhile is_js_space hs = hs"
    using assms(1) is_hex_plain(8) [OF c] by (cases hs) auto
  have s3: "(2 \<le> length hs \<and> hs ! 0 = 0x30 \<and> (hs ! Suc 0 = 0x78 \<or> hs ! Suc 0 = 0x58)) = False"
  proof -
    have False
      if a: "2 \<le> length hs \<and> hs ! 0 = 0x30 \<and> (hs ! Suc 0 = 0x78 \<or> hs ! Suc 0 = 0x58)"
    proof -
      from a have "hs ! Suc 0 \<in> set hs" by (intro nth_mem) simp
      with assms(2) have "is_hex (hs ! Suc 0)" by blast
      from is_hex_plain(6,7) [OF this] a show False by blast
    qed
    then show ?thesis by blast
  qed
  have tw: "takeWhile is_hex hs = hs"
    using assms(2) by (simp add: takeWhile_eq_all_conv)
  show ?thesis
    using is_hex_plain(4,5) [OF c] assms(1)
    by (simp add: parseInt16_def Let_def s1 s3 tw)
qed

lemma fromCodePoint_utf16:
  "0 \<le> v \<Longrightarrow> v \<le> 0x10FFFF \<Longrightarrow> fromCodePoint v = Inr (utf16 v)"
  by (simp add: fromCodePoint_def utf16_def)

lemma decode_loop_hex_escape:
  assumes "hs \<noteq> []" and "length hs \<le> 8" and "\<forall>c \<in> set hs. is_hex c"
  shows "decode_loop (BSLASH # LBRACE # hs @ RBRACE # rest) result bad =
           (if invalid_scalar (hex_value 0 hs) then
              decode_loop rest (result @ BSLASH # LBRACE # hs @ [RBRACE])
                (if bad = [] then BSLASH # LBRACE # hs @ [RBRACE] else bad)
            else decode_loop rest (result @ utf16 (hex_value 0 hs)) bad)"
proof -
  have notin: "RBRACE \<notin> set hs"
    using assms(3) is_hex_plain(1) by blast
  have ix: "indexOf (hs @ RBRACE # rest) RBRACE = Some (length hs)"
    by (rule indexOf_append [OF notin])
  note pi = parseInt16_hex [OF assms(1,3)]
  have tk: "take (length hs + 3) (BSLASH # LBRACE # hs @ RBRACE # rest)
            = BSLASH # LBRACE # hs @ [RBRACE]"
    by (simp add: numeral_3_eq_3)
  have nn: "0 \<le> hex_value 0 hs"
    using hex_value_nonneg [OF _ assms(3), of 0] by simp
  have len: "(8 < length hs) = False"
    using assms(2) by simp
  have inv: "(0x10FFFF < hex_value 0 hs \<or> 0xD800 \<le> hex_value 0 hs \<and> hex_value 0 hs \<le> 0xDFFF)
             = invalid_scalar (hex_value 0 hs)"
    by (simp add: invalid_scalar_def)
  show ?thesis
  proof (cases "invalid_scalar (hex_value 0 hs)")
    case True
    then show ?thesis
      using assms(1) by (simp add: ix pi tk len inv)
  next
    case False
    then have "hex_value 0 hs \<le> 0x10FFFF" by (simp add: invalid_scalar_def)
    from fromCodePoint_utf16 [OF nn this] False assms(1) show ?thesis
      by (simp add: ix pi tk len inv)
  qed
qed

lemma tz_replace_hex_escape:
  assumes "hs \<noteq> []" and "length hs \<le> 8" and "\<forall>c \<in> set hs. is_hex c"
  shows "tz_replace l (BSLASH # LBRACE # hs @ RBRACE # rest) =
           (if invalid_scalar (hex_value 0 hs) then
              Inl (Error (decimal (l + 1) @ jstr '': invalid escape code: ''
                          @ BSLASH # LBRACE # hs @ [RBRACE]))
            else map_sum id ((@) (utf16 (hex_value 0 hs))) (tz_replace l rest))"
proof -
  have notin: "RBRACE \<notin> set hs"
    using assms(3) is_hex_plain(1) by blast
  have ix: "indexOf (hs @ RBRACE # rest) RBRACE = Some (length hs)"
    by (rule indexOf_append [OF notin])
  note pi = parseInt16_hex [OF assms(1,3)]
  have tk: "take (length hs + 3) (BSLASH # LBRACE # hs @ RBRACE # rest)
            = BSLASH # LBRACE # hs @ [RBRACE]"
    by (simp add: numeral_3_eq_3)
  have nn: "0 \<le> hex_value 0 hs"
    using hex_value_nonneg [OF _ assms(3), of 0] by simp
  have len: "(8 < length hs) = False"
    using assms(2) by simp
  have inv: "(0x10FFFF < hex_value 0 hs \<or> 0xD800 \<le> hex_value 0 hs \<and> hex_value 0 hs \<le> 0xDFFF)
             = invalid_scalar (hex_value 0 hs)"
    by (simp add: invalid_scalar_def)
  show ?thesis
  proof (cases "invalid_scalar (hex_value 0 hs)")
    case True
    then show ?thesis
      by (simp add: ix pi tk len inv Let_def)
  next
    case False
    then have "hex_value 0 hs \<le> 0x10FFFF" by (simp add: invalid_scalar_def)
    from fromCodePoint_utf16 [OF nn this] False show ?thesis
      by (simp add: ix pi tk len inv Let_def)
  qed
qed

lemma decode_loop_plain_char:
  "c \<noteq> BSLASH \<Longrightarrow> decode_loop (c # cs) result bad = decode_loop cs (result @ [c]) bad"
  by (cases cs) simp_all

lemma decode_loop_plain:
  "plain xs \<Longrightarrow> decode_loop (xs @ rest) result bad = decode_loop rest (result @ xs) bad"
proof (induction xs arbitrary: result)
  case Nil
  then show ?case by simp
next
  case (Cons c xs)
  then have "c \<noteq> BSLASH" "plain xs" by (simp_all add: plain_def)
  with Cons.IH [of "result @ [c]"] show ?case
    by (simp add: decode_loop_plain_char del: decode_loop.simps)
qed

lemma tz_replace_plain:
  "plain xs \<Longrightarrow> tz_replace l (xs @ rest) = map_sum id ((@) xs) (tz_replace l rest)"
proof (induction xs)
  case Nil
  show ?case by (cases "tz_replace l rest") simp_all
next
  case (Cons c xs)
  then have c: "c \<noteq> BSLASH" "c \<noteq> DQUOTE" and p: "plain xs" by (simp_all add: plain_def)
  note ih = Cons.IH [OF p]
  show ?case using c by (cases "tz_replace l rest") (simp_all add: ih)
qed

lemma literal_body_plain_prefix:
  "plain xs \<Longrightarrow> literal_body (xs @ rest) = map_option ((@) xs) (literal_body rest)"
proof (induction xs)
  case Nil
  show ?case by (cases "literal_body rest") simp_all
next
  case (Cons c xs)
  then have c: "c \<noteq> BSLASH" "c \<noteq> DQUOTE" and p: "plain xs" by (simp_all add: plain_def)
  note ih = Cons.IH [OF p]
  show ?case using c by (cases "literal_body rest") (simp_all add: ih)
qed

lemma plain_hex: "\<forall>c \<in> set hs. is_hex c \<Longrightarrow> plain (hs @ [RBRACE])"
  using is_hex_plain(2,3) by (auto simp: plain_def)

lemma literal_body_escape:
  assumes "plain pre" and "plain post" and "\<forall>c \<in> set hs. is_hex c"
  shows "literal_body (pre @ BSLASH # LBRACE # hs @ RBRACE # post @ [DQUOTE])
         = Some (pre @ BSLASH # LBRACE # hs @ RBRACE # post)"
proof -
  have "plain ((hs @ [RBRACE]) @ post)"
    using plain_hex [OF assms(3)] assms(2) by (auto simp: plain_def)
  from literal_body_plain_prefix [OF this, of "[DQUOTE]"]
  have "literal_body (hs @ RBRACE # post @ [DQUOTE]) = Some (hs @ RBRACE # post)" by simp
  then have "literal_body (BSLASH # LBRACE # hs @ RBRACE # post @ [DQUOTE])
             = Some (BSLASH # LBRACE # hs @ RBRACE # post)"
    by (simp add: is_line_terminator_def)
  with literal_body_plain_prefix [OF assms(1)] show ?thesis by simp
qed

lemma decodeLiteral_hex_escape:
  assumes "hs \<noteq> []" and "length hs \<le> 8" and "\<forall>c \<in> set hs. is_hex c"
    and "plain pre" and "plain post"
  shows "decodeLiteral (DQUOTE # pre @ BSLASH # LBRACE # hs @ RBRACE # post @ [DQUOTE]) =
           (if invalid_scalar (hex_value 0 hs) then
              Inr ([], Some (jstr ''invalid escape code: '' @ BSLASH # LBRACE # hs @ [RBRACE]))
            else Inr (pre @ utf16 (hex_value 0 hs) @ post, None))"
proof -
  let ?body = "pre @ BSLASH # LBRACE # hs @ RBRACE # post"
  have body: "literal_body (drop 1 (DQUOTE # ?body @ [DQUOTE])) = Some ?body"
    using literal_body_escape [OF assms(4,5,3)] by simp
  have "decode_loop ?body [] [] =
          (if invalid_scalar (hex_value 0 hs) then
             Inr (pre @ BSLASH # LBRACE # hs @ RBRACE # post, BSLASH # LBRACE # hs @ [RBRACE])
           else Inr (pre @ utf16 (hex_value 0 hs) @ post, []))"
    using decode_loop_plain [OF assms(4), of "BSLASH # LBRACE # hs @ RBRACE # post" "[]" "[]"]
      decode_loop_hex_escape [OF assms(1-3), of post pre "[]"]
      decode_loop_plain [OF assms(5), of "[]" _ _]
    by (simp del: decode_loop.simps(3))
  with body show ?thesis
    by (simp add: decodeLiteral_def startsWith_def del: literal_body.simps decode_loop.simps)
qed

lemma endsWith_snoc: "endsWith (xs @ [c]) [c]"
  by (simp add: endsWith_def)

lemma substring_inner: "substring (c # xs @ [d]) 1 (length (c # xs @ [d]) - 1) = xs"
  by (simp add: substring_def Let_def min_def)

lemma tz_decodeLiteral_hex_escape:
  assumes "hs \<noteq> []" and "length hs \<le> 8" and "\<forall>c \<in> set hs. is_hex c"
    and "plain pre" and "plain post"
  shows "tz_decodeLiteral l (DQUOTE # pre @ BSLASH # LBRACE # hs @ RBRACE # post @ [DQUOTE]) =
           (if invalid_scalar (hex_value 0 hs) then
              Inl (Error (decimal (l + 1) @ jstr '': invalid escape code: ''
                          @ BSLASH # LBRACE # hs @ [RBRACE]))
            else Inr (pre @ utf16 (hex_value 0 hs) @ post))"
proof -
  let ?body = "pre @ BSLASH # LBRACE # hs @ RBRACE # post"
  let ?lit = "DQUOTE # ?body @ [DQUOTE]"
  have sw: "startsWith ?lit [DQUOTE]" by (simp add: startsWith_def)
  have ew: "endsWith ?lit [DQUOTE]"
    using endsWith_snoc [of "DQUOTE # ?body" DQUOTE] by simp
  have sub: "substring ?lit 1 (length ?lit - 1) = ?body"
    by (rule substring_inner)
  have "tz_decodeLiteral l ?lit = tz_replace l ?body"
    unfolding tz_decodeLiteral_def using sw ew sub by presburger
  also have "\<dots> = map_sum id ((@) pre) (tz_replace l (BSLASH # LBRACE # hs @ RBRACE # post))"
    by (rule tz_replace_plain [OF assms(4)])
  also have "tz_replace l (BSLASH # LBRACE # hs @ RBRACE # post) =
        (if invalid_scalar (hex_value 0 hs) then
              Inl (Error (decimal (l + 1) @ jstr '': invalid escape code: ''
                          @ BSLASH # LBRACE # hs @ [RBRACE]))
            else map_sum id ((@) (utf16 (hex_value 0 hs))) (tz_replace l post))"
    by (rule tz_replace_hex_escape [OF assms(1-3)])
  also have "tz_replace l post = Inr post"
    using tz_replace_plain [OF assms(5), of l "[]"] by simp
  finally show ?thesis by simp
qed

section \<open>Shape of the parsed value, number of calls, documents without entries\<close>

lemma set_prop_Map: "\<exists>q qs. set_prop (Map p ps) k v = Map q qs"
  by (cases v) (simp_all add: set_prop_def)

lemma store_container: "container (fst fr) \<Longrightarrow> container (fst (store r fr v))"
proof -
  assume c: "container (fst fr)"
  obtain res k lg where fr: "fr = (res, k, lg)" by (cases fr)
  show ?thesis
  proof (cases res)
    case None
    with fr show ?thesis by (simp add: store_def container_def)
  next
    case (Some v0)
    show ?thesis
    proof (cases v0)
      case (Map p ps)
      show ?thesis
      proof (cases k)
        case None
        with fr Some Map show ?thesis by (simp add: store_def container_def)
      next
        case (Some key)
        from set_prop_Map [of p ps key "r key v"] obtain q qs where
          "set_prop (Map p ps) key (r key v) = Map q qs" by blast
        with fr \<open>res = Some v0\<close> Map Some show ?thesis
          by (simp add: store_def container_def)
      qed
    next
      case (List xs)
      with fr Some show ?thesis by (simp add: store_def container_def)
    qed (use c fr Some in \<open>simp_all add: container_def\<close>)
  qed
qed


lemma or_else_container:
  "container res \<Longrightarrow> container (or_else res (List [])) \<and> container (or_else res (Map None []))"
  by (cases res) (simp_all add: or_else_def container_def)

lemma sectionToValue_container:
  "container (fst fr) \<Longrightarrow> sectionToValue r e ts fr = Inr (fr', ts') \<Longrightarrow> container (fst fr')"
proof (induction r e ts fr arbitrary: fr' ts' rule: sectionToValue.induct)
  case (1 r e fr)
  then show ?case by (cases e) auto
next
  case (2 r e t ts fr)
  note c = "2.prems"(1) and run = "2.prems"(2)
  show ?case
  proof (cases "snd t")
    case tz_outdent
    with run have "fr' = fr" by simp
    with c show ?thesis by simp
  next
    case tz_item
    with run have r: "sectionToValue r e ts (or_else (fst fr) (List []), snd fr)
                      = Inr (fr', ts')" by simp
    have "container (fst (or_else (fst fr) (List []), snd fr))"
      using or_else_container [OF c] by simp
    from "2.IH"(3) [OF tz_item this r] show ?thesis .
  next
    case (tz_key k)
    with run have r: "sectionToValue r e ts (or_else (fst fr) (Map None []), Some k, snd (snd fr))
                      = Inr (fr', ts')" by simp
    have "container (fst (or_else (fst fr) (Map None []), Some k, snd (snd fr)))"
      using or_else_container [OF c] by simp
    from "2.IH"(4) [OF tz_key this r] show ?thesis .
  next
    case (tz_scalar x)
    with run have r: "sectionToValue r e ts (store r fr (Str x)) = Inr (fr', ts')" by simp
    from "2.IH"(5) [OF tz_scalar store_container [OF c] r] show ?thesis .
  next
    case tz_null
    with run have r: "sectionToValue r e ts (store r fr Null) = Inr (fr', ts')" by simp
    from "2.IH"(6) [OF tz_null store_container [OF c] r] show ?thesis .
  next
    case tz_indent
    with run obtain n ts1 where
      n: "sectionToValue r e ts (None, None, snd (snd fr)) = Inr (n, ts1)"
      and fin: "sectionToValue r e ts1
                  (store r (fst fr, fst (snd fr), snd (snd n)) (nested_value (fst n)))
                = Inr (fr', ts')"
      by (auto split: sum.splits)
    have "container (fst (store r (fst fr, fst (snd fr), snd (snd n)) (nested_value (fst n))))"
      using c by (intro store_container) simp
    from "2.IH"(2) [OF tz_indent n refl this fin] show ?thesis .
  qed
qed


lemma good_line_Nil [simp]: "good_line []"
  by (simp add: good_line_def blank_or_comment_def)

lemma good_line_strip:
  assumes "good_line (cur @ ws)" and "\<forall>b \<in> set ws. is_blank b"
  shows "good_line cur"
proof (cases "dropWhile is_blank cur = []")
  case True
  with assms(1) show ?thesis by (simp add: good_line_def blank_or_comment_def)
next
  case False
  then obtain x where "x \<in> set cur" "\<not> is_blank x" by (auto simp: dropWhile_eq_Nil_conv)
  then have "dropWhile is_blank (cur @ ws) = dropWhile is_blank cur @ ws"
    by (rule dropWhile_append1)
  with assms(1) False show ?thesis
    by (auto simp: good_line_def blank_or_comment_def)
qed

lemma tz_split_good:
  "\<forall>ln \<in> set (lines_from n (cur @ ws) s). good_line (snd ln) \<Longrightarrow>
   \<forall>b \<in> set ws. is_blank b \<Longrightarrow>
   \<forall>p \<in> set (tz_split cur ws s). good_line p"
proof (induction cur ws s arbitrary: n rule: tz_split.induct)
  case (1 cur ws)
  then show ?case by (cases "cur @ ws = []") auto
next
  case (2 cur ws c cs)
  note lines = "2.prems"(1) and blanks = "2.prems"(2)
  have nil: "\<forall>b \<in> set ([] :: jsstring). is_blank b" by simp
  show ?case
  proof (cases "c = CR")
    case True
    show ?thesis
    proof (cases cs)
      case Nil
      with True lines have "good_line (cur @ ws)" by simp
      from good_line_strip [OF this blanks] True Nil show ?thesis by simp
    next
      case (Cons d ds)
      with True lines have g: "good_line (cur @ ws)" by simp
      note gc = good_line_strip [OF g blanks]
      show ?thesis
      proof (cases "d = LF")
        case lf: True
        from True Cons lf lines
        have "\<forall>ln \<in> set (lines_from (Suc n) ([] @ []) ds). good_line (snd ln)" by simp
        from "2.IH"(1) [OF True Cons lf this nil] True Cons lf gc show ?thesis by simp
      next
        case nlf: False
        from True Cons nlf lines
        have "\<forall>ln \<in> set (lines_from (Suc n) ([] @ []) (d # ds)). good_line (snd ln)" by simp
        from "2.IH"(2) [OF True Cons nlf this nil] True Cons nlf gc show ?thesis by simp
      qed
    qed
  next
    case ncr: False
    show ?thesis
    proof (cases "c = LF")
      case True
      with ncr lines have g: "good_line (cur @ ws)" by simp
      note gc = good_line_strip [OF g blanks]
      from ncr True lines
      have "\<forall>ln \<in> set (lines_from (Suc n) ([] @ []) cs). good_line (snd ln)" by simp
      from "2.IH"(3) [OF ncr True this nil] ncr True gc show ?thesis by simp
    next
      case nlf: False
      show ?thesis
      proof (cases "is_blank c")
        case True
        from ncr nlf lines
        have "\<forall>ln \<in> set (lines_from n (cur @ (ws @ [c])) cs). good_line (snd ln)" by simp
        moreover from blanks True have "\<forall>b \<in> set (ws @ [c]). is_blank b" by simp
        ultimately show ?thesis
          using "2.IH"(4) [OF ncr nlf True] ncr nlf True by simp
      next
        case False
        from ncr nlf lines
        have "\<forall>ln \<in> set (lines_from n ((cur @ ws @ [c]) @ []) cs). good_line (snd ln)" by simp
        from "2.IH"(5) [OF ncr nlf False this nil] ncr nlf False show ?thesis by simp
      qed
    qed
  qed
qed

lemma tz_lines_good:
  assumes "only_blank_and_comments input"
  shows "\<exists>lns. tz_lines input = Inr lns
           \<and> (\<forall>ln \<in> set lns. snd ln = [] \<or> startsWith (snd ln) [SEMI])"
proof -
  have g: "\<forall>p \<in> set (tz_split [] [] input). good_line p"
  proof (cases "input = []")
    case True
    then show ?thesis by simp
  next
    case False
    with assms have "\<forall>ln \<in> set (lines_from 1 ([] @ []) input). good_line (snd ln)"
      by (simp add: only_blank_and_comments_def lines_def good_line_def)
    from tz_split_good [OF this] show ?thesis by simp
  qed
  then have nolt: "\<not> (\<exists>p \<in> set (tz_split [] [] input). \<exists>c \<in> set p. is_line_terminator c)"
    by (auto simp: good_line_def)
  have "snd ln = [] \<or> startsWith (snd ln) [SEMI]"
    if "ln \<in> set (map (\<lambda>p. (takeWhile is_blank p, dropWhile is_blank p))
                    (tz_split [] [] input))" for ln
  proof -
    from that obtain p where p: "p \<in> set (tz_split [] [] input)"
      and ln: "ln = (takeWhile is_blank p, dropWhile is_blank p)" by auto
    from g p have "blank_or_comment p" by (simp add: good_line_def)
    with ln show ?thesis
      by (cases "dropWhile is_blank p") (auto simp: blank_or_comment_def startsWith_def)
  qed
  with nolt show ?thesis by (simp add: tz_lines_def Let_def)
qed

lemma tz_loop_skip:
  "\<forall>ln \<in> set lns. snd ln = [] \<or> startsWith (snd ln) [SEMI] \<Longrightarrow>
   tz_loop l lns s = ([], None, s)"
proof (induction lns arbitrary: l)
  case Nil
  show ?case by simp
next
  case (Cons ln lns)
  then have "tz_tokenizeLine l ln lns s = ([], None, s, 0)"
    by (simp add: tz_tokenizeLine_def Let_def)
  with Cons show ?case by simp
qed

lemma tz_tokens_blank:
  assumes "only_blank_and_comments input"
  shows "tz_tokens input = ([], None)"
proof -
  from tz_lines_good [OF assms] obtain lns where
    l: "tz_lines input = Inr lns"
    and s: "\<forall>ln \<in> set lns. snd ln = [] \<or> startsWith (snd ln) [SEMI]" by blast
  from tz_loop_skip [OF s] l show ?thesis by (simp add: tz_tokens_def)
qed

section \<open>Exceptions of the tolerant tokenizer\<close>

text \<open>
  The tolerant tokenizer has one call that can raise: \<open>String.fromCodePoint\<close> in
  \<open>decodeLiteral\<close>. The second pass \<open>tokens\<close> never reads an empty \<open>states\<close> array and
  never meets a token kind outside its \<open>switch\<close>, so a \<open>RangeError\<close> is the only exception
  that can end the generator.
\<close>

lemma fromCodePoint_exn: "fromCodePoint v = Inl e \<Longrightarrow> e = RangeError"
  by (auto simp: fromCodePoint_def split: if_splits)

lemma decode_loop_exn: "decode_loop c r b = Inl e \<Longrightarrow> e = RangeError"
proof (induction c r b rule: decode_loop.induct)
  case (1 result badEscape)
  then show ?case by simp
next
  case (2 c result badEscape)
  then show ?case by simp
next
  case (3 c n cs result badEscape)
  note p = "3.prems"
  show ?case
  proof (cases "c \<noteq> BSLASH")
    case True
    from p True show ?thesis by (intro "3.IH"(1) [OF True]) simp
  next
    case c: False
    show ?thesis
    proof (cases "n = 0x6E")
      case True
      from p c True show ?thesis by (intro "3.IH"(2) [OF c True]) simp
    next
      case n1: False
      show ?thesis
      proof (cases "n = 0x72")
        case True
        from p c n1 True show ?thesis by (intro "3.IH"(3) [OF c n1 True]) simp
      next
        case n2: False
        show ?thesis
        proof (cases "n = 0x74")
          case True
          from p c n1 n2 True show ?thesis by (intro "3.IH"(4) [OF c n1 n2 True]) simp
        next
          case n3: False
          show ?thesis
          proof (cases "n = DQUOTE")
            case True
            from p c n1 n2 n3 True show ?thesis
              by (intro "3.IH"(5) [OF c n1 n2 n3 True]) simp
          next
            case n4: False
            show ?thesis
            proof (cases "n = BSLASH")
              case True
              from p c n1 n2 n3 n4 True show ?thesis
                by (intro "3.IH"(6) [OF c n1 n2 n3 n4 True]) simp
            next
              case n5: False
              show ?thesis
              proof (cases "n = LBRACE")
                case False
                from p c n1 n2 n3 n4 n5 False show ?thesis
                  by (intro "3.IH"(12) [OF c n1 n2 n3 n4 n5 False]) (auto split: if_splits)
              next
                case n6: True
                note pre = c n1 n2 n3 n4 n5 n6
                show ?thesis
                proof (cases "indexOf cs RBRACE")
                  case None
                  from p pre None show ?thesis
                    by (intro "3.IH"(7) [OF pre None]) (auto split: if_splits)
                next
                  case (Some j)
                  note ix = Some
                  show ?thesis
                  proof (cases "j = 0 \<or> 8 < j")
                    case True
                    from p pre ix True show ?thesis
                      by (intro "3.IH"(8) [OF pre ix True]) (auto split: if_splits)
                  next
                    case f: False
                    show ?thesis
                    proof (cases "parseInt16 (take j cs)")
                      case None
                      from p pre ix f None show ?thesis
                        by (intro "3.IH"(9) [OF pre ix f None]) (auto split: if_splits)
                    next
                      case (Some cp)
                      note pi = Some
                      show ?thesis
                      proof (cases "0x10FFFF < cp \<or> (0xD800 \<le> cp \<and> cp \<le> 0xDFFF)")
                        case True
                        from p pre ix f pi True show ?thesis
                          by (intro "3.IH"(10) [OF pre ix f pi True]) (auto split: if_splits)
                      next
                        case g: False
                        show ?thesis
                        proof (cases "fromCodePoint cp")
                          case (Inl x)
                          from p pre ix f pi g Inl have "x = e" by auto
                          with fromCodePoint_exn [OF Inl] show ?thesis by simp
                        next
                          case (Inr u)
                          from p pre ix f pi g Inr show ?thesis
                            by (intro "3.IH"(11) [OF pre ix f pi g Inr]) (auto split: if_splits)
                        qed
                      qed
                    qed
                  qed
                qed
              qed
            qed
          qed
        qed
      qed
    qed
  qed
qed


lemma decodeLiteral_exn: "decodeLiteral v = Inl e \<Longrightarrow> e = RangeError"
  by (auto simp: decodeLiteral_def split: if_splits option.splits sum.splits prod.splits
      dest: decode_loop_exn)

lemma value_part_exn: "value_part s l r = (ts, Some e, s') \<Longrightarrow> e = RangeError"
  by (auto simp: value_part_def Let_def
      split: prod.splits bool.splits if_splits sum.splits dest: decodeLiteral_exn)

lemma entry_part_exn: "entry_part s l r = (ts, Some e, s') \<Longrightarrow> e = RangeError"
  by (auto simp: entry_part_def Let_def
      split: prod.splits bool.splits if_splits sum.splits
      dest: decodeLiteral_exn value_part_exn)

lemma tokenize_line_exn: "tokenize_line s ln = (ts, Some e, s') \<Longrightarrow> e = RangeError"
  by (auto simp: tokenize_line_def Let_def
      split: prod.splits bool.splits if_splits dest: entry_part_exn)

lemma tokenize_lines_exn: "tokenize_lines s lns = (ts, Some e, s') \<Longrightarrow> e = RangeError"
proof (induction lns arbitrary: s ts s')
  case Nil
  then show ?case by simp
next
  case (Cons ln lns)
  obtain t1 e1 s1 where l: "tokenize_line s ln = (t1, e1, s1)"
    by (cases "tokenize_line s ln")
  show ?case
  proof (cases e1)
    case None
    obtain t2 e2 s2 where r: "tokenize_lines s1 lns = (t2, e2, s2)"
      by (cases "tokenize_lines s1 lns")
    from Cons.prems l None r have "e2 = Some e" by simp
    with r Cons.IH show ?thesis by blast
  next
    case (Some x)
    with Cons.prems l have "x = e" by simp
    with l Some tokenize_line_exn show ?thesis by blast
  qed
qed

lemma tokenize_exn: "snd (tokenize input) = Some e \<Longrightarrow> e = RangeError"
proof -
  assume a: "snd (tokenize input) = Some e"
  obtain ts e1 s where r: "tokenize_lines init_tstate (lines input) = (ts, e1, s)"
    by (cases "tokenize_lines init_tstate (lines input)")
  from a r have "e1 = Some e" by (cases e1) (simp_all add: tokenize_def)
  with r tokenize_lines_exn show ?thesis by blast
qed

lemma tokens_exn_tokenize: "snd (tokens input) = snd (tokenize input)"
proof -
  obtain raw e where t: "tokenize input = (raw, e)" by (cases "tokenize input")
  from tokenize_depth [OF t] obtain d where nv: "no_novalue raw"
    and d: "depth_after 0 raw = Some d" by blast
  have ok: "states_ok [ParseState Comment False]" by (simp add: states_ok_def)
  from tokens_loop_depth [OF ok nv, of d 0] d
  obtain out sts' l' where
    lp: "tokens_loop ([ParseState Comment False], 0) raw = (out, None, (sts', l'))" by auto
  from t lp show ?thesis by (cases e) (simp_all add: tokens_def)
qed

lemma tokens_exn: "snd (tokens input) = Some e \<Longrightarrow> e = RangeError"
  using tokenize_exn [of input e] by (simp add: tokens_exn_tokenize)

section \<open>Nesting depth of the stream of \<open>tokenizer.ts\<close>\<close>

lemma tz_depth_after_append:
  "tz_depth_after d (xs @ ys) =
     (case tz_depth_after d xs of None \<Rightarrow> None | Some d' \<Rightarrow> tz_depth_after d' ys)"
  by (induction xs arbitrary: d) (auto split: nat.splits)

lemma tz_depth_after_flat: "tz_flat ts \<Longrightarrow> tz_depth_after d ts = Some d"
  by (induction ts arbitrary: d) (auto simp: tz_flat_def)

lemma tz_flat_simps [simp]:
  "tz_flat []"
  "tz_flat (t # ts) = (snd t \<noteq> tz_indent \<and> snd t \<noteq> tz_outdent \<and> tz_flat ts)"
  "tz_flat (xs @ ys) = (tz_flat xs \<and> tz_flat ys)"
  by (auto simp: tz_flat_def)

lemma tz_depth_after_outdents:
  "n \<le> d \<Longrightarrow> tz_depth_after d (replicate n (l, tz_outdent)) = Some (d - n)"
  by (induction n arbitrary: d) (auto split: nat.splits)

lemma tz_depth_after_counts:
  "tz_depth_after d ts = Some d' \<Longrightarrow> d + tz_count tz_indent ts = d' + tz_count tz_outdent ts"
proof (induction ts arbitrary: d)
  case Nil
  then show ?case by (simp add: tz_count_def)
next
  case (Cons t ts)
  show ?case
  proof (cases "snd t = tz_indent")
    case True
    with Cons.prems have "tz_depth_after (Suc d) ts = Some d'" by simp
    from Cons.IH [OF this] True show ?thesis by (simp add: tz_count_def)
  next
    case False
    show ?thesis
    proof (cases "snd t = tz_outdent")
      case True
      with Cons.prems obtain d0 where d: "d = Suc d0" "tz_depth_after d0 ts = Some d'"
        by (cases d) auto
      from Cons.IH [OF d(2)] True d(1) show ?thesis by (simp add: tz_count_def)
    next
      case no: False
      with False Cons.prems have "tz_depth_after d ts = Some d'" by simp
      from Cons.IH [OF this] False no show ?thesis by (simp add: tz_count_def)
    qed
  qed
qed

lemma tz_depth_after_take:
  assumes "tz_depth_after d ts = Some d'"
  shows "\<exists>d''. tz_depth_after d (take n ts) = Some d''"
proof -
  from assms have "tz_depth_after d (take n ts @ drop n ts) = Some d'" by simp
  then show ?thesis
    unfolding tz_depth_after_append by (cases "tz_depth_after d (take n ts)") auto
qed

lemma tz_stack_ok_fst:
  "map fst a = map fst b \<Longrightarrow> tz_stack_ok a = tz_stack_ok b"
proof -
  assume m: "map fst a = map fst b"
  then have e: "(a = []) = (b = [])" by (metis map_is_Nil_conv)
  have "a \<noteq> [] \<Longrightarrow> fst (last a) = fst (last b)"
    using m e by (metis last_map)
  with e show ?thesis by (auto simp: tz_stack_ok_def)
qed

lemma tz_outdents_ok:
  "tz_stack_ok st \<Longrightarrow> tz_outdents l ind st lastl = (ts, st', lastl') \<Longrightarrow>
   tz_stack_ok st' \<and> tz_depth_after (length st - 1) ts = Some (length st' - 1)"
proof (induction st arbitrary: ts st' lastl lastl')
  case Nil
  then show ?case by (simp add: tz_stack_ok_def)
next
  case (Cons frame below)
  show ?case
  proof (cases "startsWith ind (fst frame)")
    case True
    with Cons.prems show ?thesis by simp
  next
    case False
    with Cons.prems(1) have ne: "below \<noteq> []"
      by (auto simp: tz_stack_ok_def startsWith_def)
    with Cons.prems(1) have ok: "tz_stack_ok below" by (simp add: tz_stack_ok_def)
    obtain t1 s1 l1 where r: "tz_outdents l ind below None = (t1, s1, l1)"
      by (cases "tz_outdents l ind below None")
    from Cons.IH [OF ok r]
    have ok1: "tz_stack_ok s1" and d1: "tz_depth_after (length below - 1) t1 = Some (length s1 - 1)"
      by simp_all
    let ?pre = "case lastl of Some k \<Rightarrow> [(k, tz_null)] | None \<Rightarrow> []"
    from Cons.prems(2) False r
    have ts: "ts = ?pre @ [(l, tz_outdent)] @ t1" and st: "st' = s1" by simp_all
    have fl: "tz_flat ?pre" by (cases lastl) simp_all
    from ne obtain k where k: "length below = Suc k" by (cases below) auto
    have "tz_depth_after (length (frame # below) - 1) ts = tz_depth_after (length below - 1) t1"
      unfolding ts tz_depth_after_append using tz_depth_after_flat [OF fl] k by simp
    with d1 ok1 st show ?thesis by simp
  qed
qed

lemma tz_value_flat:
  "tz_value l ind tail after s = (ts, e, s', n) \<Longrightarrow> tz_flat ts \<and> tz_stack s' = tz_stack s"
  by (auto simp: tz_value_def split: option.splits if_splits sum.splits prod.splits)

lemma tz_key_token [simp]:
  "map_sum id tz_key x \<noteq> Inr tz_indent"
  "map_sum id tz_key x \<noteq> Inr tz_outdent"
  by (cases x; simp)+

lemma tz_entry_flat:
  "tz_entry l ind line after s = (ts, e, s', n) \<Longrightarrow>
   tz_flat ts \<and> map fst (tz_stack s') = map fst (tz_stack s)"
  by (auto simp: tz_entry_def Let_def
      split: option.splits sum.splits list.splits if_splits prod.splits
      dest!: tz_value_flat)

lemma tz_tokenizeLine_depth:
  assumes ok: "tz_stack_ok (tz_stack s)"
    and run: "tz_tokenizeLine l ln after s = (ts, e, s', n)"
  shows "\<exists>d. tz_depth_after (length (tz_stack s) - 1) ts = Some d
           \<and> (e = None \<longrightarrow> tz_stack_ok (tz_stack s') \<and> d = length (tz_stack s') - 1)"
proof (cases "snd ln = [] \<or> startsWith (snd ln) [SEMI]")
  case True
  with run ok show ?thesis by (auto simp: tz_tokenizeLine_def Let_def)
next
  case False
  obtain outs st lastl where
    o: "tz_outdents l (fst ln) (tz_stack s) (lastLno s) = (outs, st, lastl)"
    by (cases "tz_outdents l (fst ln) (tz_stack s) (lastLno s)")
  from tz_outdents_ok [OF ok o]
  have ok1: "tz_stack_ok st"
    and d1: "tz_depth_after (length (tz_stack s) - 1) outs = Some (length st - 1)"
    by simp_all
  from ok1 obtain frame below where st: "st = frame # below"
    by (cases st) (auto simp: tz_stack_ok_def)
  show ?thesis
  proof (cases "fst ln \<noteq> fst frame")
    case ind: True
    show ?thesis
    proof (cases "lastl = None")
      case True
      with run False o st ind d1 show ?thesis
        by (auto simp: tz_tokenizeLine_def Let_def)
    next
      case nn: False
      obtain t1 e1 s1 n1 where
        en: "tz_entry l (fst ln) (snd ln) after
               (s\<lparr>tz_stack := (fst ln, Unset) # st, lastLno := None\<rparr>) = (t1, e1, s1, n1)"
        by (cases "tz_entry l (fst ln) (snd ln) after
               (s\<lparr>tz_stack := (fst ln, Unset) # st, lastLno := None\<rparr>)")
      from run False o st ind nn en
      have r: "ts = outs @ [(l, tz_indent)] @ t1" "e = e1" "s' = s1"
        by (auto simp: tz_tokenizeLine_def Let_def)
      from tz_entry_flat [OF en]
      have f1: "tz_flat t1" and m: "map fst (tz_stack s1) = map fst ((fst ln, Unset) # st)"
        by simp_all
      have ok2: "tz_stack_ok ((fst ln, Unset) # st)"
        using ok1 st by (simp add: tz_stack_ok_def)
      from tz_stack_ok_fst [OF m] ok2 have ok3: "tz_stack_ok (tz_stack s1)" by simp
      from m have len: "length (tz_stack s1) = Suc (length st)"
        by (metis length_Cons length_map)
      have "tz_depth_after (length (tz_stack s) - 1) ts = Some (length st)"
        unfolding r(1) tz_depth_after_append using d1 tz_depth_after_flat [OF f1] st by simp
      with ok3 len r show ?thesis by simp
    qed
  next
    case same: False
    obtain t1 e1 s1 n1 where
      en: "tz_entry l (fst ln) (snd ln) after
             (s\<lparr>tz_stack := st, lastLno := lastl\<rparr>) = (t1, e1, s1, n1)"
      by (cases "tz_entry l (fst ln) (snd ln) after (s\<lparr>tz_stack := st, lastLno := lastl\<rparr>)")
    from run False o st same en
    have r: "ts = outs @ t1" "e = e1" "s' = s1"
      by (auto simp: tz_tokenizeLine_def Let_def)
    from tz_entry_flat [OF en]
    have f1: "tz_flat t1" and m: "map fst (tz_stack s1) = map fst st"
      by simp_all
    from tz_stack_ok_fst [OF m] ok1 have ok3: "tz_stack_ok (tz_stack s1)" by simp
    from m have len: "length (tz_stack s1) = length st"
      by (metis length_map)
    have "tz_depth_after (length (tz_stack s) - 1) ts = Some (length st - 1)"
      unfolding r(1) tz_depth_after_append using d1 tz_depth_after_flat [OF f1] by simp
    with ok3 len r show ?thesis by simp
  qed
qed

lemma tz_loop_depth:
  "tz_stack_ok (tz_stack s) \<Longrightarrow> tz_loop l lns s = (ts, e, s') \<Longrightarrow>
   \<exists>d. tz_depth_after (length (tz_stack s) - 1) ts = Some d
       \<and> (e = None \<longrightarrow> tz_stack_ok (tz_stack s') \<and> d = length (tz_stack s') - 1)"
proof (induction l lns s arbitrary: ts e s' rule: tz_loop.induct)
  case (1 l s)
  then show ?case by simp
next
  case (2 l ln lns s)
  obtain t1 e1 s1 n1 where tl: "tz_tokenizeLine l ln lns s = (t1, e1, s1, n1)"
    by (cases "tz_tokenizeLine l ln lns s")
  from tz_tokenizeLine_depth [OF "2.prems"(1) tl] obtain d1 where
    d1: "tz_depth_after (length (tz_stack s) - 1) t1 = Some d1"
    and n1: "e1 = None \<longrightarrow> tz_stack_ok (tz_stack s1) \<and> d1 = length (tz_stack s1) - 1"
    by blast
  show ?case
  proof (cases e1)
    case (Some x)
    with "2.prems"(2) tl have "ts = t1" "e = Some x" by simp_all
    with d1 show ?thesis by simp
  next
    case None
    obtain t2 e2 s2 where r: "tz_loop (l + n1 + 1) (drop n1 lns) s1 = (t2, e2, s2)"
      by (cases "tz_loop (l + n1 + 1) (drop n1 lns) s1")
    from "2.prems"(2) tl None r have res: "ts = t1 @ t2" "e = e2" "s' = s2" by simp_all
    from n1 None have ok1: "tz_stack_ok (tz_stack s1)" and dd: "d1 = length (tz_stack s1) - 1"
      by simp_all
    have tl': "(t1, None, s1, n1) = tz_tokenizeLine l ln lns s" using tl None by simp
    from "2.IH" [OF tl' refl refl refl ok1 r] obtain d2 where
      d2: "tz_depth_after (length (tz_stack s1) - 1) t2 = Some d2"
      and n2: "e2 = None \<longrightarrow> tz_stack_ok (tz_stack s2) \<and> d2 = length (tz_stack s2) - 1"
      by blast
    have "tz_depth_after (length (tz_stack s) - 1) ts = Some d2"
      unfolding res(1) tz_depth_after_append using d1 dd d2 by simp
    with n2 res show ?thesis by simp
  qed
qed

lemma tz_tokens_depth:
  "\<exists>d. tz_depth_after 0 (fst (tz_tokens input)) = Some d
       \<and> (snd (tz_tokens input) = None \<longrightarrow> d = 0)"
proof (cases "tz_lines input")
  case (Inl x)
  then show ?thesis by (simp add: tz_tokens_def)
next
  case (Inr lns)
  let ?s0 = "\<lparr>tz_stack = [([], Unset)], lastLno = None\<rparr>"
  obtain ts e s where r: "tz_loop 0 lns ?s0 = (ts, e, s)"
    by (cases "tz_loop 0 lns ?s0")
  have ok: "tz_stack_ok (tz_stack ?s0)" by (simp add: tz_stack_ok_def)
  from tz_loop_depth [OF ok r] obtain d where
    d: "tz_depth_after 0 ts = Some d"
    and n: "e = None \<longrightarrow> tz_stack_ok (tz_stack s) \<and> d = length (tz_stack s) - 1"
    by auto
  show ?thesis
  proof (cases e)
    case (Some x)
    with Inr r d show ?thesis by (simp add: tz_tokens_def)
  next
    case None
    let ?pre = "case lastLno s of Some k \<Rightarrow> [(k, tz_null)] | None \<Rightarrow> []"
    have fl: "tz_flat ?pre" by (cases "lastLno s") simp_all
    from Inr r None have f: "fst (tz_tokens input) =
        ts @ ?pre @ replicate (length (tz_stack s) - 1) (length lns, tz_outdent)"
      and sn: "snd (tz_tokens input) = None"
      by (simp_all add: tz_tokens_def)
    from n None have dd: "d = length (tz_stack s) - 1" by simp
    have "tz_depth_after 0 (fst (tz_tokens input)) = Some 0"
      unfolding f tz_depth_after_append
      using d dd tz_depth_after_flat [OF fl] tz_depth_after_outdents [of d d "length lns"]
      by simp
    then show ?thesis by simp
  qed
qed

section \<open>Decoding a literal piece by piece\<close>

lemma literal_body_piece:
  assumes "piece_ok p"
  shows "literal_body (piece_text p @ rest) = map_option ((@) (piece_text p)) (literal_body rest)"
proof (cases p)
  case (Plain c)
  with assms show ?thesis by (cases "literal_body rest") simp_all
next
  case (Simple c)
  with assms show ?thesis
    by (cases "literal_body rest") (auto simp: is_line_terminator_def)
next
  case (HexEsc hs)
  with assms have h: "\<forall>c \<in> set hs. is_hex c" by (simp add: list_all_iff)
  from literal_body_plain_prefix [OF plain_hex [OF h], of rest]
  have "literal_body (hs @ RBRACE # rest) = map_option ((@) (hs @ [RBRACE])) (literal_body rest)"
    by simp
  with HexEsc show ?thesis
    by (cases "literal_body rest") (simp_all add: is_line_terminator_def)
qed

lemma literal_body_pieces:
  "list_all piece_ok ps \<Longrightarrow>
   literal_body (concat (map piece_text ps) @ [DQUOTE]) = Some (concat (map piece_text ps))"
proof (induction ps)
  case Nil
  show ?case by simp
next
  case (Cons p ps)
  then have ok: "piece_ok p" and ih: "literal_body (concat (map piece_text ps) @ [DQUOTE])
      = Some (concat (map piece_text ps))" by simp_all
  from literal_body_piece [OF ok, of "concat (map piece_text ps) @ [DQUOTE]"] ih
  show ?case by simp
qed

lemma decode_loop_piece:
  assumes "piece_ok p"
  shows "decode_loop (piece_text p @ rest) result bad =
           (if piece_valid p then decode_loop rest (result @ piece_value p) bad
            else decode_loop rest (result @ piece_text p)
                   (if bad = [] then piece_text p else bad))"
proof (cases p)
  case (Plain c)
  with assms show ?thesis by (simp add: decode_loop_plain_char del: decode_loop.simps)
next
  case (Simple c)
  with assms show ?thesis by auto
next
  case (HexEsc hs)
  with assms have h: "hs \<noteq> []" "length hs \<le> 8" "\<forall>c \<in> set hs. is_hex c"
    by (simp_all add: list_all_iff)
  from decode_loop_hex_escape [OF h, of rest result bad] HexEsc assms
  show ?thesis by (simp del: decode_loop.simps)
qed

lemma decode_loop_valid_pieces:
  "list_all piece_valid ps \<Longrightarrow>
   decode_loop (concat (map piece_text ps) @ rest) result bad =
   decode_loop rest (result @ concat (map piece_value ps)) bad"
proof (induction ps arbitrary: result)
  case Nil
  show ?case by simp
next
  case (Cons p ps)
  then have v: "piece_valid p" and vs: "list_all piece_valid ps" by simp_all
  from v have ok: "piece_ok p" by (cases p) simp_all
  from decode_loop_piece [OF ok, of "concat (map piece_text ps) @ rest" result bad] v
    Cons.IH [OF vs, of "result @ piece_value p"]
  show ?case by (simp del: decode_loop.simps)
qed

lemma decode_loop_after_bad:
  "list_all piece_ok ps \<Longrightarrow> bad \<noteq> [] \<Longrightarrow>
   \<exists>out. decode_loop (concat (map piece_text ps)) result bad = Inr (out, bad)"
proof (induction ps arbitrary: result)
  case Nil
  show ?case by simp
next
  case (Cons p ps)
  then have ok: "piece_ok p" and oks: "list_all piece_ok ps" by simp_all
  from decode_loop_piece [OF ok, of "concat (map piece_text ps)" result bad] Cons.prems(2)
  have "decode_loop (concat (map piece_text (p # ps))) result bad =
          decode_loop (concat (map piece_text ps))
            (result @ (if piece_valid p then piece_value p else piece_text p)) bad"
    by (simp del: decode_loop.simps)
  with Cons.IH [OF oks Cons.prems(2)] show ?case by simp
qed

lemma piece_valid_ok: "list_all piece_valid ps \<Longrightarrow> list_all piece_ok ps"
proof (induction ps)
  case Nil
  show ?case by simp
next
  case (Cons p ps)
  then show ?case by (cases p) simp_all
qed

lemma decodeLiteral_pieces:
  assumes "list_all piece_valid ps"
  shows "decodeLiteral (literal_text ps) = Inr (literal_value ps, None)"
proof -
  let ?body = "concat (map piece_text ps)"
  have body: "literal_body (drop 1 (literal_text ps)) = Some ?body"
    using literal_body_pieces [OF piece_valid_ok [OF assms]] by (simp add: literal_text_def)
  have "decode_loop ?body [] [] = Inr (literal_value ps, [])"
    using decode_loop_valid_pieces [OF assms, of "[]" "[]" "[]"]
    by (simp add: literal_value_def)
  with body show ?thesis
    by (simp add: decodeLiteral_def startsWith_def literal_text_def
        del: literal_body.simps decode_loop.simps)
qed

lemma decodeLiteral_invalid_piece:
  assumes "list_all piece_valid ps" and "piece_ok (HexEsc hs)"
    and "invalid_scalar (hex_value 0 hs)" and "list_all piece_ok qs"
  shows "decodeLiteral (literal_text (ps @ HexEsc hs # qs)) =
           Inr ([], Some (jstr ''invalid escape code: '' @ piece_text (HexEsc hs)))"
proof -
  let ?all = "ps @ HexEsc hs # qs"
  let ?body = "concat (map piece_text ?all)"
  have oks: "list_all piece_ok ?all"
    using piece_valid_ok [OF assms(1)] assms(2,4) by simp
  have body: "literal_body (drop 1 (literal_text ?all)) = Some ?body"
    using literal_body_pieces [OF oks] by (simp add: literal_text_def)
  have nv: "piece_valid (HexEsc hs) = False" using assms(3) by simp
  have "decode_loop ?body [] [] =
          decode_loop (piece_text (HexEsc hs) @ concat (map piece_text qs))
            (concat (map piece_value ps)) []"
    using decode_loop_valid_pieces [OF assms(1),
        of "piece_text (HexEsc hs) @ concat (map piece_text qs)" "[]" "[]"]
    by (simp del: decode_loop.simps)
  also have "\<dots> = decode_loop (concat (map piece_text qs))
                     (concat (map piece_value ps) @ piece_text (HexEsc hs))
                     (piece_text (HexEsc hs))"
    using decode_loop_piece [OF assms(2), of "concat (map piece_text qs)"
        "concat (map piece_value ps)" "[]"]
    by (simp only: nv if_False simp_thms if_True)
  finally obtain out where
    "decode_loop ?body [] [] = Inr (out, piece_text (HexEsc hs))"
    using decode_loop_after_bad [OF assms(4), of "piece_text (HexEsc hs)"
        "concat (map piece_value ps) @ piece_text (HexEsc hs)"]
    by auto
  with body show ?thesis
    by (simp add: decodeLiteral_def startsWith_def literal_text_def
        del: literal_body.simps decode_loop.simps)
qed

lemma tz_replace_simple:
  "tz_replace l (BSLASH # 0x6E # rest) = map_sum id ((#) LF) (tz_replace l rest)"
  "tz_replace l (BSLASH # 0x72 # rest) = map_sum id ((#) CR) (tz_replace l rest)"
  "tz_replace l (BSLASH # 0x74 # rest) = map_sum id ((#) TAB) (tz_replace l rest)"
  "tz_replace l (BSLASH # DQUOTE # rest) = map_sum id ((#) DQUOTE) (tz_replace l rest)"
  "tz_replace l (BSLASH # BSLASH # rest) = map_sum id ((#) BSLASH) (tz_replace l rest)"
  by (simp_all add: is_line_terminator_def)

lemma tz_replace_piece:
  assumes "piece_valid p"
  shows "tz_replace l (piece_text p @ rest) = map_sum id ((@) (piece_value p)) (tz_replace l rest)"
proof (cases p)
  case (Plain c)
  with assms show ?thesis by (cases "tz_replace l rest") simp_all
next
  case (Simple c)
  with assms have "c = 0x6E \<or> c = 0x72 \<or> c = 0x74 \<or> c = DQUOTE \<or> c = BSLASH" by simp
  then show ?thesis
    unfolding Simple
    by (elim disjE; cases "tz_replace l rest")
       (simp_all add: tz_replace_simple del: tz_replace.simps)
next
  case (HexEsc hs)
  with assms have h: "hs \<noteq> []" "length hs \<le> 8" "\<forall>c \<in> set hs. is_hex c"
    and v: "\<not> invalid_scalar (hex_value 0 hs)"
    by (simp_all add: list_all_iff)
  from tz_replace_hex_escape [OF h, of l rest] v HexEsc
  show ?thesis by (simp del: tz_replace.simps)
qed

lemma tz_replace_valid_pieces:
  "list_all piece_valid ps \<Longrightarrow>
   tz_replace l (concat (map piece_text ps) @ rest) =
   map_sum id ((@) (concat (map piece_value ps))) (tz_replace l rest)"
proof (induction ps)
  case Nil
  show ?case by (cases "tz_replace l rest") simp_all
next
  case (Cons p ps)
  then have v: "piece_valid p" and vs: "list_all piece_valid ps" by simp_all
  from tz_replace_piece [OF v, of l "concat (map piece_text ps) @ rest"] Cons.IH [OF vs]
  show ?case by (cases "tz_replace l rest") (simp_all del: tz_replace.simps)
qed

lemma tz_decodeLiteral_body:
  "tz_decodeLiteral l (literal_text ps) = tz_replace l (concat (map piece_text ps))"
proof -
  let ?body = "concat (map piece_text ps)"
  let ?lit = "DQUOTE # ?body @ [DQUOTE]"
  have sw: "startsWith ?lit [DQUOTE]" by (simp add: startsWith_def)
  have ew: "endsWith ?lit [DQUOTE]"
    using endsWith_snoc [of "DQUOTE # ?body" DQUOTE] by simp
  have sub: "substring ?lit 1 (length ?lit - 1) = ?body"
    by (rule substring_inner)
  have "tz_decodeLiteral l ?lit = tz_replace l ?body"
    unfolding tz_decodeLiteral_def using sw ew sub by presburger
  then show ?thesis by (simp add: literal_text_def)
qed

lemma tz_decodeLiteral_pieces:
  assumes "list_all piece_valid ps"
  shows "tz_decodeLiteral l (literal_text ps) = Inr (literal_value ps)"
  using tz_replace_valid_pieces [OF assms, of l "[]"]
  by (simp add: tz_decodeLiteral_body literal_value_def)

lemma tz_decodeLiteral_invalid_piece:
  assumes "list_all piece_valid ps" and "piece_ok (HexEsc hs)"
    and "invalid_scalar (hex_value 0 hs)"
  shows "tz_decodeLiteral l (literal_text (ps @ HexEsc hs # qs)) =
           Inl (Error (decimal (l + 1) @ jstr '': invalid escape code: ''
                       @ piece_text (HexEsc hs)))"
proof -
  from assms(2) have h: "hs \<noteq> []" "length hs \<le> 8" "\<forall>c \<in> set hs. is_hex c"
    by (simp_all add: list_all_iff)
  have "tz_replace l (piece_text (HexEsc hs) @ concat (map piece_text qs)) =
          Inl (Error (decimal (l + 1) @ jstr '': invalid escape code: ''
                      @ piece_text (HexEsc hs)))"
    using tz_replace_hex_escape [OF h, of l "concat (map piece_text qs)"] assms(3)
    by (simp del: tz_replace.simps)
  with tz_replace_valid_pieces [OF assms(1), of l
      "piece_text (HexEsc hs) @ concat (map piece_text qs)"]
  show ?thesis
    by (simp add: tz_decodeLiteral_body del: tz_replace.simps piece_text.simps)
qed

section \<open>The tree builder on the tokens of a document\<close>

lemma store_Map:
  "store r (Some (Map p ps), Some k, log) v =
     (Some (set_prop (Map p ps) k (r k v)), None, log @ [(k, v)])"
  by (simp add: store_def)

lemma store_List:
  "store r (Some (List xs), ck, log) v =
     (Some (List (xs @ [r (decimal (length xs)) v])), ck, log @ [(decimal (length xs), v)])"
  by (simp add: store_def)

lemma split_Cons:
  assumes "map snd ts = x # ys"
  obtains t ts0 where "ts = t # ts0" and "snd t = x" and "map snd ts0 = ys"
  using assms by (auto simp: map_eq_Cons_conv)

lemma split_append:
  assumes "map snd ts = ys @ zs"
  obtains us vs where "ts = us @ vs" and "map snd us = ys" and "map snd vs = zs"
  using assms by (auto simp: map_eq_append_conv)

lemma key_first:
  "snd t = tz_key k \<Longrightarrow>
   sectionToValue r e (t # ts) (None, ck, log) =
   sectionToValue r e (t # ts) (Some (Map None []), ck, log)"
  by (simp add: or_else_def)

lemma item_first:
  "snd t = tz_item \<Longrightarrow>
   sectionToValue r e (t # ts) (None, ck, log) =
   sectionToValue r e (t # ts) (Some (List []), ck, log)"
  by (simp add: or_else_def)

lemma sectionToValue_doc:
  "nested_ok d \<Longrightarrow> map snd ts = value_kinds d \<Longrightarrow>
     sectionToValue r e (ts @ rest) fr =
     sectionToValue r e rest
       (store r (fst fr, fst (snd fr), snd (snd fr) @ doc_calls r d) (doc_value r d))"
  and sectionToValue_entries: "entries_ok es \<Longrightarrow> map snd ts = map_kinds es \<Longrightarrow>
     sectionToValue r e (ts @ rest) (Some (Map p ps), ck, log) =
     sectionToValue r e rest
       (Some (map_value r (Map p ps) es), if es = [] then ck else None, log @ map_calls r es)"
  and sectionToValue_items: "items_ok ds \<Longrightarrow> map snd ts = list_kinds ds \<Longrightarrow>
     sectionToValue r e (ts @ rest) (Some (List xs), ck, log) =
     sectionToValue r e rest
       (Some (List (list_value r xs ds)), ck, log @ list_calls r (length xs) ds)"
proof (induction d and es and ds
    arbitrary: ts rest fr and ts rest p ps ck log and ts rest xs ck log
    rule: value_kinds_map_kinds_list_kinds.induct)
  case (1 s)
  from "1.prems"(2) obtain t where ts: "ts = [t]" and t: "snd t = tz_scalar s"
    by (auto simp: map_eq_Cons_conv)
  show ?case unfolding ts using t by simp
next
  case 2
  from "2.prems"(2) obtain t where ts: "ts = [t]" and t: "snd t = tz_null"
    by (auto simp: map_eq_Cons_conv)
  show ?case unfolding ts using t by simp
next
  case (3 es)
  from "3.prems"(1) have ne: "es \<noteq> []" and ok: "entries_ok es" by simp_all
  from "3.prems"(2) have m: "map snd ts = tz_indent # (map_kinds es @ [tz_outdent])" by simp
  from m obtain ti ts0 where ts: "ts = ti # ts0" and ti: "snd ti = tz_indent"
    and m0: "map snd ts0 = map_kinds es @ [tz_outdent]" by (rule split_Cons)
  from m0 obtain ts1 ts2 where ts0: "ts0 = ts1 @ ts2" and m1: "map snd ts1 = map_kinds es"
    and m2: "map snd ts2 = [tz_outdent]" by (rule split_append)
  from m2 obtain t2 where ts2: "ts2 = [t2]" and t2: "snd t2 = tz_outdent"
    by (auto simp: map_eq_Cons_conv)
  from ne obtain e0 es0 where es: "es = e0 # es0" by (cases es) auto
  with m1 obtain tk ts1' where ts1: "ts1 = tk # ts1'" and tk: "snd tk = tz_key (fst e0)"
    by (auto simp: map_eq_Cons_conv)
  let ?log = "snd (snd fr)"
  have "sectionToValue r e (ts1 @ t2 # rest) (None, None, ?log) =
        sectionToValue r e (ts1 @ t2 # rest) (Some (Map None []), None, ?log)"
    unfolding ts1 using key_first [OF tk] by simp
  also have "\<dots> = sectionToValue r e (t2 # rest)
        (Some (map_value r (Map None []) es), None, ?log @ map_calls r es)"
    using "3.IH" [OF ok m1, of "t2 # rest" None "[]" None ?log] ne by simp
  also have "\<dots> = Inr ((Some (map_value r (Map None []) es), None, ?log @ map_calls r es), rest)"
    using t2 by simp
  finally have inner: "sectionToValue r e (ts1 @ t2 # rest) (None, None, ?log) =
      Inr ((Some (doc_value r (DMap es)), None, ?log @ doc_calls r (DMap es)), rest)"
    by simp
  have "sectionToValue r e (ts @ rest) fr =
        (case sectionToValue r e (ts1 @ t2 # rest) (None, None, ?log) of
           Inl x \<Rightarrow> Inl x
         | Inr (nested, ts') \<Rightarrow>
             sectionToValue r e ts'
               (store r (fst fr, fst (snd fr), snd (snd nested)) (nested_value (fst nested))))"
    unfolding ts ts0 ts2 using ti by simp
  then show ?case unfolding inner by (simp add: nested_value_def)
next
  case (4 ds)
  from "4.prems"(1) have ne: "ds \<noteq> []" and ok: "items_ok ds" by simp_all
  from "4.prems"(2) have m: "map snd ts = tz_indent # (list_kinds ds @ [tz_outdent])" by simp
  from m obtain ti ts0 where ts: "ts = ti # ts0" and ti: "snd ti = tz_indent"
    and m0: "map snd ts0 = list_kinds ds @ [tz_outdent]" by (rule split_Cons)
  from m0 obtain ts1 ts2 where ts0: "ts0 = ts1 @ ts2" and m1: "map snd ts1 = list_kinds ds"
    and m2: "map snd ts2 = [tz_outdent]" by (rule split_append)
  from m2 obtain t2 where ts2: "ts2 = [t2]" and t2: "snd t2 = tz_outdent"
    by (auto simp: map_eq_Cons_conv)
  from ne obtain d0 ds0 where ds: "ds = d0 # ds0" by (cases ds) auto
  with m1 obtain tk ts1' where ts1: "ts1 = tk # ts1'" and tk: "snd tk = tz_item"
    by (auto simp: map_eq_Cons_conv)
  let ?log = "snd (snd fr)"
  have "sectionToValue r e (ts1 @ t2 # rest) (None, None, ?log) =
        sectionToValue r e (ts1 @ t2 # rest) (Some (List []), None, ?log)"
    unfolding ts1 using item_first [OF tk] by simp
  also have "\<dots> = sectionToValue r e (t2 # rest)
        (Some (List (list_value r [] ds)), None, ?log @ list_calls r 0 ds)"
    using "4.IH" [OF ok m1, of "t2 # rest" "[]" None ?log] by simp
  also have "\<dots> = Inr ((Some (List (list_value r [] ds)), None, ?log @ list_calls r 0 ds), rest)"
    using t2 by simp
  finally have inner: "sectionToValue r e (ts1 @ t2 # rest) (None, None, ?log) =
      Inr ((Some (doc_value r (DList ds)), None, ?log @ doc_calls r (DList ds)), rest)"
    by simp
  have "sectionToValue r e (ts @ rest) fr =
        (case sectionToValue r e (ts1 @ t2 # rest) (None, None, ?log) of
           Inl x \<Rightarrow> Inl x
         | Inr (nested, ts') \<Rightarrow>
             sectionToValue r e ts'
               (store r (fst fr, fst (snd fr), snd (snd nested)) (nested_value (fst nested))))"
    unfolding ts ts0 ts2 using ti by simp
  then show ?case unfolding inner by (simp add: nested_value_def)
next
  case 5
  then show ?case by simp
next
  case (6 e0 es)
  from "6.prems"(1) have okd: "nested_ok (snd e0)" and oks: "entries_ok es" by simp_all
  from "6.prems"(2) have m: "map snd ts = tz_key (fst e0) # (value_kinds (snd e0) @ map_kinds es)"
    by simp
  from m obtain tk ts0 where ts: "ts = tk # ts0" and tk: "snd tk = tz_key (fst e0)"
    and m0: "map snd ts0 = value_kinds (snd e0) @ map_kinds es" by (rule split_Cons)
  from m0 obtain ts1 ts2 where ts0: "ts0 = ts1 @ ts2"
    and m1: "map snd ts1 = value_kinds (snd e0)" and m2: "map snd ts2 = map_kinds es"
    by (rule split_append)
  let ?v = "doc_value r (snd e0)"
  let ?log1 = "log @ doc_calls r (snd e0)"
  obtain q qs where sp: "set_prop (Map p ps) (fst e0) (r (fst e0) ?v) = Map q qs"
    using set_prop_Map by blast
  have "sectionToValue r e (ts @ rest) (Some (Map p ps), ck, log) =
        sectionToValue r e (ts1 @ (ts2 @ rest)) (Some (Map p ps), Some (fst e0), log)"
    unfolding ts ts0 using tk by (simp add: or_else_def)
  also have "\<dots> = sectionToValue r e (ts2 @ rest)
        (store r (Some (Map p ps), Some (fst e0), ?log1) ?v)"
    using "6.IH"(1) [OF okd m1, of "ts2 @ rest" "(Some (Map p ps), Some (fst e0), log)"]
    by simp
  also have "\<dots> = sectionToValue r e (ts2 @ rest)
        (Some (Map q qs), None, ?log1 @ [(fst e0, ?v)])"
    by (simp add: store_Map sp)
  also have "\<dots> = sectionToValue r e rest
        (Some (map_value r (Map q qs) es), None, (?log1 @ [(fst e0, ?v)]) @ map_calls r es)"
    using "6.IH"(2) [OF oks m2, of rest q qs None "?log1 @ [(fst e0, ?v)]"] by simp
  finally show ?case by (simp add: sp)
next
  case 7
  then show ?case by simp
next
  case (8 d ds)
  from "8.prems"(1) have okd: "nested_ok d" and oks: "items_ok ds" by simp_all
  from "8.prems"(2) have m: "map snd ts = tz_item # (value_kinds d @ list_kinds ds)" by simp
  from m obtain tk ts0 where ts: "ts = tk # ts0" and tk: "snd tk = tz_item"
    and m0: "map snd ts0 = value_kinds d @ list_kinds ds" by (rule split_Cons)
  from m0 obtain ts1 ts2 where ts0: "ts0 = ts1 @ ts2"
    and m1: "map snd ts1 = value_kinds d" and m2: "map snd ts2 = list_kinds ds"
    by (rule split_append)
  let ?v = "doc_value r d"
  let ?log1 = "log @ doc_calls r d"
  let ?xs1 = "xs @ [r (decimal (length xs)) ?v]"
  have "sectionToValue r e (ts @ rest) (Some (List xs), ck, log) =
        sectionToValue r e (ts1 @ (ts2 @ rest)) (Some (List xs), ck, log)"
    unfolding ts ts0 using tk by (simp add: or_else_def)
  also have "\<dots> = sectionToValue r e (ts2 @ rest) (store r (Some (List xs), ck, ?log1) ?v)"
    using "8.IH"(1) [OF okd m1, of "ts2 @ rest" "(Some (List xs), ck, log)"] by simp
  also have "\<dots> = sectionToValue r e (ts2 @ rest)
        (Some (List ?xs1), ck, ?log1 @ [(decimal (length xs), ?v)])"
    by (simp add: store_List)
  also have "\<dots> = sectionToValue r e rest
        (Some (List (list_value r ?xs1 ds)), ck,
         (?log1 @ [(decimal (length xs), ?v)]) @ list_calls r (length ?xs1) ds)"
    using "8.IH"(2) [OF oks m2, of rest ?xs1 ck "?log1 @ [(decimal (length xs), ?v)]"]
    by simp
  finally show ?case by simp
qed







section \<open>The tokens of \<open>tokenizer.ts\<close> are the tokens of a document\<close>




























section \<open>Claims about the tolerant token stream\<close>

text \<open>
  C1. Lexing and validation never abort the whole document: an offending token is emitted
  with its error and the tokens of the rest of the document follow. The code breaks this
  on the one-line document \<open>k = "\{-1}"\<close>: \<open>decodeLiteral\<close> reads the escape with
  \<open>parseInt("-1", 16) = -1\<close>, which passes the three range tests, and
  \<open>String.fromCodePoint(-1)\<close> raises a \<open>RangeError\<close>. The generator ends after the
  \<open>MapKey\<close> token: no \<open>Scalar\<close> token carrying an error is emitted.
\<close>

theorem tokens_negative_escape_aborts:
  \<open>tokens (jstr ''k = "'' @ [BSLASH] @ jstr ''{-1}"'') =
     ([mk 1 MapKey (jstr ''k'') None], Some RangeError)\<close>
  by code_simp

text \<open>
  C2, as stated: the token stream of every document holds as many \<open>Indent\<close> as
  \<open>Outdent\<close> tokens. It does not when the lexer stops before the end of the input:
  \<open>tokens\<close> of \<open>tokenizer.ts\<close> raises on a list item in a section of keys, after it has
  yielded the \<open>indent\<close> of that section and before any \<open>outdent\<close>.
\<close>

theorem tz_tokens_unbalanced_when_raising:
  \<open>tz_tokens (jstr ''a\<newline>  b\<newline>  = c'') =
     ([(0, tz_key (jstr ''a'')), (1, tz_indent), (1, tz_key (jstr ''b''))],
      Some (Error (jstr ''3: unexpected list item'')))
   \<and> tz_count tz_indent (fst (tz_tokens (jstr ''a\<newline>  b\<newline>  = c''))) = 1
   \<and> tz_count tz_outdent (fst (tz_tokens (jstr ''a\<newline>  b\<newline>  = c''))) = 0\<close>
  by code_simp

text \<open>
  C2, amended: in the token stream of every document the running count of \<open>Outdent\<close>
  tokens never exceeds the running count of \<open>Indent\<close> tokens, and when the lexer
  reaches the end of the input (it raised no exception) the stream holds exactly as many
  \<open>Indent\<close> as \<open>Outdent\<close> tokens: the levels still open are closed by the \<open>Outdent\<close>
  tokens of \<open>remaining_states\<close>. The stream of \<open>tokenizer.ts\<close> has the same two
  properties: the running count of \<open>outdent\<close> tokens never exceeds that of \<open>indent\<close>
  tokens, and the counts are equal when it reaches the end of the input, where its final
  loop pops the stack.
\<close>

theorem indent_outdent_paired:
  "(\<forall>n \<le> length (fst (tokens input)).
      count_kind Outdent (take n (fst (tokens input)))
      \<le> count_kind Indent (take n (fst (tokens input))))
   \<and> (snd (tokens input) = None \<longrightarrow>
        count_kind Indent (fst (tokens input)) = count_kind Outdent (fst (tokens input)))
   \<and> (\<forall>n \<le> length (fst (tz_tokens input)).
        tz_count tz_outdent (take n (fst (tz_tokens input)))
        \<le> tz_count tz_indent (take n (fst (tz_tokens input))))
   \<and> (snd (tz_tokens input) = None \<longrightarrow>
        tz_count tz_indent (fst (tz_tokens input)) = tz_count tz_outdent (fst (tz_tokens input)))"
proof -
  obtain d where
    d: "depth_after 0 (fst (tokens input)) = Some d"
    and z: "snd (tokens input) = None \<longrightarrow> d = 0"
    using tokens_depth [of input] by auto
  have "count_kind Outdent (take n (fst (tokens input)))
        \<le> count_kind Indent (take n (fst (tokens input)))" for n
  proof -
    from depth_after_take [OF d, of n] obtain d'' where
      "depth_after 0 (take n (fst (tokens input))) = Some d''" by blast
    from depth_after_counts [OF this] show ?thesis by simp
  qed
  moreover from depth_after_counts [OF d] z
  have "snd (tokens input) = None \<longrightarrow>
        count_kind Indent (fst (tokens input)) = count_kind Outdent (fst (tokens input))"
    by simp
  moreover obtain k where
    k: "tz_depth_after 0 (fst (tz_tokens input)) = Some k"
    and kz: "snd (tz_tokens input) = None \<longrightarrow> k = 0"
    using tz_tokens_depth [of input] by auto
  have "tz_count tz_outdent (take n (fst (tz_tokens input)))
        \<le> tz_count tz_indent (take n (fst (tz_tokens input)))" for n
  proof -
    from tz_depth_after_take [OF k, of n] obtain k'' where
      "tz_depth_after 0 (take n (fst (tz_tokens input))) = Some k''" by blast
    from tz_depth_after_counts [OF this] show ?thesis by simp
  qed
  moreover from tz_depth_after_counts [OF k] kz
  have "snd (tz_tokens input) = None \<longrightarrow>
        tz_count tz_indent (fst (tz_tokens input)) = tz_count tz_outdent (fst (tz_tokens input))"
    by simp
  ultimately show ?thesis by blast
qed

theorem indent_outdent_paired_witness:
  "3 \<le> length (fst (tokens (jstr ''a\<newline>  b\<newline>    c = 1'')))
   \<and> count_kind Outdent (take 3 (fst (tokens (jstr ''a\<newline>  b\<newline>    c = 1''))))
      \<le> count_kind Indent (take 3 (fst (tokens (jstr ''a\<newline>  b\<newline>    c = 1''))))
   \<and> snd (tokens (jstr ''a\<newline>  b\<newline>    c = 1'')) = None
   \<and> count_kind Indent (fst (tokens (jstr ''a\<newline>  b\<newline>    c = 1''))) = 2
   \<and> count_kind Outdent (fst (tokens (jstr ''a\<newline>  b\<newline>    c = 1''))) = 2
   \<and> 3 \<le> length (fst (tz_tokens (jstr ''a\<newline>  b\<newline>    c = 1'')))
   \<and> tz_count tz_outdent (take 3 (fst (tz_tokens (jstr ''a\<newline>  b\<newline>    c = 1''))))
      \<le> tz_count tz_indent (take 3 (fst (tz_tokens (jstr ''a\<newline>  b\<newline>    c = 1''))))
   \<and> snd (tz_tokens (jstr ''a\<newline>  b\<newline>    c = 1'')) = None
   \<and> tz_count tz_indent (fst (tz_tokens (jstr ''a\<newline>  b\<newline>    c = 1''))) = 2
   \<and> tz_count tz_outdent (fst (tz_tokens (jstr ''a\<newline>  b\<newline>    c = 1''))) = 2"
proof -
  let ?w = "jstr ''a\<newline>  b\<newline>    c = 1''"
  have a: "3 \<le> length (fst (tokens ?w))" by code_simp
  have b: "snd (tokens ?w) = None" by code_simp
  have c: "count_kind Indent (fst (tokens ?w)) = 2" by code_simp
  have a': "3 \<le> length (fst (tz_tokens ?w))" by code_simp
  have b': "snd (tz_tokens ?w) = None" by code_simp
  have c': "tz_count tz_indent (fst (tz_tokens ?w)) = 2" by code_simp
  from indent_outdent_paired [of ?w] a b c a' b' c' show ?thesis by simp
qed

text \<open>
  C3. Within a section the entry tokens are all \<open>ListItem\<close> or all \<open>MapKey\<close>. The code
  breaks this where a document starts indented: for the unexpected \<open>Indent\<close> it emits a
  \<open>MapKey\<close> token carrying \<open>unexpected indent\<close> in the enclosing section, but leaves
  that section's kind unset, so a later \<open>ListItem\<close> of the same section sets the kind and
  is emitted without an error. The root section of the stream below holds a \<open>MapKey\<close>
  and a \<open>ListItem\<close>.
\<close>

theorem tokens_mixed_section_after_unexpected_indent:
  \<open>tokens (jstr ''  a = 1\<newline>= b'') =
     ([mk 1 MapKey [] (Some (jstr ''unexpected indent'')), mk 1 Indent (jstr ''  '') None,
       mk 1 MapKey (jstr ''a'') None, mk 1 Scalar (jstr ''1'') None, mk 2 Outdent [] None,
       mk 2 ListItem [] None, mk 2 Scalar (jstr ''b'') None], None)
   \<and> \<not> sections_uniform [None] (fst (tokens (jstr ''  a = 1\<newline>= b'')))\<close>
  by code_simp

text \<open>
  C5. The content of a multiline scalar is the body lines, each without the block's
  prefix, joined by line feeds, with trailing white space stripped from the end only. The
  code breaks this for the first body line: it takes the line from \<open>trimLeft\<close>, whose
  regular expression \<open>(.*)\<close> stops at U+2028 or U+2029, so the rest of that line is
  lost, while every later body line is taken from the raw line and keeps it.
\<close>

theorem tokens_multiline_first_line_cut:
  \<open>tokens (jstr ''k = """\<newline>  a'' @ [0x2028] @ jstr ''b'') =
     ([mk 1 MapKey (jstr ''k'') None, mk 1 MultilineHint [] None,
       mk 2 MultilineScalar (jstr ''a'') None], None)
   \<and> tokens (jstr ''k = """\<newline>  x\<newline>  a'' @ [0x2028] @ jstr ''b'') =
     ([mk 1 MapKey (jstr ''k'') None, mk 1 MultilineHint [] None,
       mk 2 MultilineScalar (jstr ''x\<newline>a'' @ [0x2028] @ jstr ''b'') None], None)\<close>
  by code_simp

text \<open>
  C6. When no non-blank line more indented than the section follows a multiline marker,
  the result is an empty \<open>MultilineScalar\<close> carrying \<open>missing multiline value\<close> at the
  line of the marker. The code breaks this where a line of blanks only, longer than the
  section's indent, follows the marker: the indentation test comes before the test for a
  blank line, so that line sets the prefix and the line number. Before a less indented
  line the empty scalar then carries no error; at the end of the input it carries the
  error, at the line of the blanks.
\<close>

theorem tokens_blank_line_taken_as_multiline_body:
  \<open>tokens (jstr ''key = """\<newline>   \<newline>foo = bar'') =
     ([mk 1 MapKey (jstr ''key'') None, mk 1 MultilineHint [] None,
       mk 2 MultilineScalar [] None,
       mk 3 MapKey (jstr ''foo'') None, mk 3 Scalar (jstr ''bar'') None], None)
   \<and> tokens (jstr ''key = """\<newline>   '') =
     ([mk 1 MapKey (jstr ''key'') None, mk 1 MultilineHint [] None,
       mk 2 MultilineScalar [] (Some (jstr ''missing multiline value''))], None)\<close>
  by code_simp

text \<open>
  C9. A trailing comment is emitted as a \<open>Comment\<close> token holding the text after the
  semicolon verbatim. The code breaks this where the comment holds U+2028 or U+2029:
  the line's text is taken from \<open>trimLeft\<close>, whose \<open>(.*)\<close> stops there, and the
  rest of the comment is lost.
\<close>

theorem tokens_comment_cut_at_line_separator:
  \<open>tokens (jstr ''k = v ; x'' @ [0x2028] @ jstr ''y'') =
     ([mk 1 MapKey (jstr ''k'') None, mk 1 Scalar (jstr ''v'') None,
       mk 1 Comment (jstr '' x'') None], None)\<close>
  by code_simp

section \<open>Claims about parse\<close>

text \<open>
  C4. \<open>parse\<close> of the three lines \<open>= """\<close>, \<open> c\<close> and \<open> =\<close> returns the list whose
  only element is the string of \<open>c\<close>, a line feed and \<open>=\<close>. The reviver is called for
  the element with the index \<open>0\<close> and for the list with the empty key.
\<close>

theorem parse_multiline_list:
  \<open>(parse identity (jstr ''= """\<newline> c\<newline> ='') :: js_exn + unit Conl \<times> unit calls) =
     Inr (List [Str (jstr ''c\<newline>='')],
          [(jstr ''0'', Str (jstr ''c\<newline>='')), ([], List [Str (jstr ''c\<newline>='')])])\<close>
  by code_simp

text \<open>
  C7. A quoted literal is a sequence of pieces: code units that stand for themselves,
  the escapes \<open>\n \r \t \" \\\<close>, and escapes \<open>\{HEX}\<close> of one to eight hexadecimal
  digits. When every \<open>\{HEX}\<close> names a Unicode scalar value, both decoders return the
  literal's value, in which each \<open>\{HEX}\<close> is replaced by the UTF-16 form of the code
  point \<open>HEX\<close> (\<open>piece_value\<close>), whatever the other pieces are. A \<open>\{HEX}\<close> that names a
  surrogate or a value above \<open>0x10FFFF\<close>, the first such in the literal, is an invalid
  escape: \<open>decodeLiteral\<close> of \<open>utils.ts\<close> returns an error that quotes it, with an empty
  text, and \<open>decodeLiteral\<close> of \<open>tokenizer.ts\<close> raises that error. \<open>parse\<close> of
  \<open>key = "\{1F600}"\<close> is the map from \<open>key\<close> to the surrogate pair \<open>D83D DE00\<close> of
  U+1F600.
\<close>

theorem hex_escape_decoded:
  \<open>(list_all piece_valid ps \<longrightarrow>
      decodeLiteral (literal_text ps) = Inr (literal_value ps, None)
      \<and> tz_decodeLiteral l (literal_text ps) = Inr (literal_value ps))
   \<and> (list_all piece_valid ps \<and> piece_ok (HexEsc hs) \<and> invalid_scalar (hex_value 0 hs)
        \<and> list_all piece_ok qs \<longrightarrow>
      decodeLiteral (literal_text (ps @ HexEsc hs # qs)) =
        Inr ([], Some (jstr ''invalid escape code: '' @ piece_text (HexEsc hs)))
      \<and> tz_decodeLiteral l (literal_text (ps @ HexEsc hs # qs)) =
        Inl (Error (decimal (l + 1) @ jstr '': invalid escape code: ''
                    @ piece_text (HexEsc hs))))
   \<and> (parse identity (jstr ''key = "'' @ [BSLASH] @ jstr ''{1F600}"'')
        :: js_exn + unit Conl \<times> unit calls) =
     Inr (Map None [(jstr ''key'', Str [0xD83D, 0xDE00])],
          [(jstr ''key'', Str [0xD83D, 0xDE00]),
           ([], Map None [(jstr ''key'', Str [0xD83D, 0xDE00])])])\<close>
proof -
  have \<open>(parse identity (jstr ''key = "'' @ [BSLASH] @ jstr ''{1F600}"'')
          :: js_exn + unit Conl \<times> unit calls) =
       Inr (Map None [(jstr ''key'', Str [0xD83D, 0xDE00])],
            [(jstr ''key'', Str [0xD83D, 0xDE00]),
             ([], Map None [(jstr ''key'', Str [0xD83D, 0xDE00])])])\<close>
    by code_simp
  with decodeLiteral_pieces [of ps] tz_decodeLiteral_pieces [of ps l]
    decodeLiteral_invalid_piece [of ps hs qs] tz_decodeLiteral_invalid_piece [of ps hs l qs]
  show ?thesis by blast
qed

theorem hex_escape_decoded_witness:
  \<open>decodeLiteral (jstr ''"Hello'' @ [BSLASH] @ jstr ''nWorld'' @ [BSLASH] @ jstr ''t''
                   @ [BSLASH] @ jstr ''{1F600}"'')
       = Inr (jstr ''Hello'' @ [LF] @ jstr ''World'' @ [TAB, 0xD83D, 0xDE00], None)
   \<and> tz_decodeLiteral 0 (jstr ''"Hello'' @ [BSLASH] @ jstr ''nWorld'' @ [BSLASH] @ jstr ''t''
                          @ [BSLASH] @ jstr ''{1F600}"'')
       = Inr (jstr ''Hello'' @ [LF] @ jstr ''World'' @ [TAB, 0xD83D, 0xDE00])
   \<and> decodeLiteral (jstr ''"'' @ [BSLASH] @ jstr ''{41}'' @ [BSLASH] @ jstr ''t''
                     @ [BSLASH] @ jstr ''{D800}b'' @ [BSLASH] @ jstr ''{110000}"'')
       = Inr ([], Some (jstr ''invalid escape code: '' @ [BSLASH] @ jstr ''{D800}''))
   \<and> tz_decodeLiteral 0 (jstr ''"'' @ [BSLASH] @ jstr ''{41}'' @ [BSLASH] @ jstr ''t''
                          @ [BSLASH] @ jstr ''{D800}b'' @ [BSLASH] @ jstr ''{110000}"'')
       = Inl (Error (jstr ''1: invalid escape code: '' @ [BSLASH] @ jstr ''{D800}''))\<close>
proof -
  let ?ps = "map Plain (jstr ''Hello'') @ [Simple 0x6E] @ map Plain (jstr ''World'')
             @ [Simple 0x74, HexEsc (jstr ''1F600'')]"
  let ?ps' = "[HexEsc (jstr ''41''), Simple 0x74]"
  let ?qs = "[Plain 0x62, HexEsc (jstr ''110000'')]"
  have h: \<open>list_all piece_valid ?ps\<close> \<open>list_all piece_valid ?ps'\<close>
    \<open>piece_ok (HexEsc (jstr ''D800''))\<close> \<open>invalid_scalar (hex_value 0 (jstr ''D800''))\<close>
    \<open>list_all piece_ok ?qs\<close>
    by code_simp+
  have e: \<open>literal_text ?ps = jstr ''"Hello'' @ [BSLASH] @ jstr ''nWorld'' @ [BSLASH] @ jstr ''t''
                   @ [BSLASH] @ jstr ''{1F600}"''\<close>
    \<open>literal_value ?ps = jstr ''Hello'' @ [LF] @ jstr ''World'' @ [TAB, 0xD83D, 0xDE00]\<close>
    \<open>literal_text (?ps' @ HexEsc (jstr ''D800'') # ?qs) =
       jstr ''"'' @ [BSLASH] @ jstr ''{41}'' @ [BSLASH] @ jstr ''t''
         @ [BSLASH] @ jstr ''{D800}b'' @ [BSLASH] @ jstr ''{110000}"''\<close>
    \<open>piece_text (HexEsc (jstr ''D800'')) = [BSLASH] @ jstr ''{D800}''\<close>
    \<open>decimal (0 + 1) @ jstr '': invalid escape code: '' @ [BSLASH] @ jstr ''{D800}''
       = jstr ''1: invalid escape code: '' @ [BSLASH] @ jstr ''{D800}''\<close>
    by code_simp+
  note t1 = hex_escape_decoded [of ?ps 0 "[]" "[]"]
  note t2 = hex_escape_decoded [of ?ps' 0 "jstr ''D800''" ?qs]
  from t1 h(1) have
    \<open>decodeLiteral (literal_text ?ps) = Inr (literal_value ?ps, None)\<close>
    \<open>tz_decodeLiteral 0 (literal_text ?ps) = Inr (literal_value ?ps)\<close>
    by blast+
  moreover from t2 h(2-5) have
    \<open>decodeLiteral (literal_text (?ps' @ HexEsc (jstr ''D800'') # ?qs)) =
        Inr ([], Some (jstr ''invalid escape code: '' @ piece_text (HexEsc (jstr ''D800''))))\<close>
    \<open>tz_decodeLiteral 0 (literal_text (?ps' @ HexEsc (jstr ''D800'') # ?qs)) =
        Inl (Error (decimal (0 + 1) @ jstr '': invalid escape code: ''
                    @ piece_text (HexEsc (jstr ''D800''))))\<close>
    by blast+
  ultimately show ?thesis unfolding e by (simp only: simp_thms)
qed



text \<open>
  C10, as stated: for every input string \<open>parse\<close> without a reviver returns a map or a
  list. It does not on a document that the tokenizer rejects: \<open>parse\<close> raises the
  tokenizer's error for a first line that is indented.
\<close>

theorem parse_raises_on_unexpected_indent:
  \<open>(parse identity (jstr ''  a'') :: js_exn + unit Conl \<times> unit calls)
   = Inl (Error (jstr ''1: unexpected indent''))\<close>
  by code_simp

text \<open>
  C10, amended: whenever \<open>parse\<close> without a reviver returns a value, the value is a map
  or a list, never a string or \<open>null\<close>; for the empty string it returns the empty map,
  and so it does for an input whose lines are all blank or comments and hold neither
  U+2028 nor U+2029.
\<close>

theorem parse_returns_map_or_list:
  \<open>(\<forall>v log. parse identity input = Inr (v, log) \<longrightarrow> (\<exists>p ps. v = Map p ps) \<or> (\<exists>xs. v = List xs))
   \<and> parse identity [] = Inr (Map None [], [([], Map None [])])
   \<and> (only_blank_and_comments input \<longrightarrow> parse identity input = Inr (Map None [], [([], Map None [])]))\<close>
proof -
  have shape: "(\<exists>p ps. v = Map p ps) \<or> (\<exists>xs. v = List xs)"
    if p: "parse identity input = Inr (v, log)" for v :: "'a Conl" and log
  proof -
    obtain ts e where t: "tz_tokens input = (ts, e)" by (cases "tz_tokens input")
    from p t obtain fr rest where
      s: "sectionToValue identity e ts (None :: 'a Conl option, None, []) = Inr (fr, rest)"
      by (auto simp: parse_def split: sum.splits)
    have "container (fst (None :: 'a Conl option, None :: jsstring option, [] :: 'a calls))"
      by (simp add: container_def)
    from sectionToValue_container [OF this s] have c: "container (fst fr)" .
    from p t s have "v = (case fst fr of None \<Rightarrow> Map None [] | Some v \<Rightarrow> v)"
      by (simp add: parse_def Let_def identity_def)
    with c show ?thesis
      by (cases "fst fr") (auto simp: container_def split: Conl.splits)
  qed
  have blank: "parse identity input' = Inr (Map None [], [([], Map None [])])"
    if "tz_tokens input' = ([], None)" for input'
    using that by (simp add: parse_def identity_def Let_def)
  have "only_blank_and_comments []"
    by (simp add: only_blank_and_comments_def lines_def blank_or_comment_def)
  from tz_tokens_blank [OF this] blank have "parse identity [] = Inr (Map None [], [([], Map None [])])"
    by blast
  with shape blank tz_tokens_blank [of input] show ?thesis by blast
qed

theorem parse_returns_map_or_list_witness:
  \<open>(parse identity (jstr ''a = b'') :: js_exn + unit Conl \<times> unit calls)
     = Inr (Map None [(jstr ''a'', Str (jstr ''b''))],
            [(jstr ''a'', Str (jstr ''b'')), ([], Map None [(jstr ''a'', Str (jstr ''b''))])])
   \<and> ((\<exists>p ps. (Map None [(jstr ''a'', Str (jstr ''b''))] :: unit Conl) = Map p ps)
       \<or> (\<exists>xs. (Map None [(jstr ''a'', Str (jstr ''b''))] :: unit Conl) = List xs))
   \<and> (parse identity (jstr ''; c\<newline>  \<newline>\<newline> ; d'') :: js_exn + unit Conl \<times> unit calls)
     = Inr (Map None [], [([], Map None [])])\<close>
proof -
  have a: \<open>(parse identity (jstr ''a = b'') :: js_exn + unit Conl \<times> unit calls)
     = Inr (Map None [(jstr ''a'', Str (jstr ''b''))],
            [(jstr ''a'', Str (jstr ''b'')), ([], Map None [(jstr ''a'', Str (jstr ''b''))])])\<close>
    by code_simp
  have b: \<open>only_blank_and_comments (jstr ''; c\<newline>  \<newline>\<newline> ; d'')\<close>
    by code_simp
  from parse_returns_map_or_list [where input = "jstr ''a = b''" and 'a = unit] a
  have \<open>(\<exists>p ps. (Map None [(jstr ''a'', Str (jstr ''b''))] :: unit Conl) = Map p ps)
       \<or> (\<exists>xs. (Map None [(jstr ''a'', Str (jstr ''b''))] :: unit Conl) = List xs)\<close>
    by blast
  moreover from parse_returns_map_or_list [where input = "jstr ''; c\<newline>  \<newline>\<newline> ; d''" and 'a = unit] b
  have \<open>(parse identity (jstr ''; c\<newline>  \<newline>\<newline> ; d'') :: js_exn + unit Conl \<times> unit calls)
     = Inr (Map None [], [([], Map None [])])\<close>
    by blast
  ultimately show ?thesis using a by blast
qed

end
